theory Spec2Isabelle
  imports Complex_Main "HOL-Library.Word" "HOL-Library.Sublist"
begin

unbundle bit_operations_syntax

section \<open>Command-T match scoring (ruby/command-t/match.c)\<close>

text \<open>
  The embedding follows \<^verbatim>\<open>match.c\<close> function by function.

  \<^item> Strings are \<open>string\<close> (bytes); \<open>long\<close> indices are \<open>int\<close>, so that the
    cursors of the source can reach \<open>-1\<close> as they do there.
  \<^item> A \<open>double\<close> is modelled by a \<open>real\<close>: the model computes exactly where the
    C code rounds. The two sentinels keep their numeric values.
  \<^item> Reading or writing an array outside its bounds is undefined in C; the model
    checks the accesses to the memo table and the indexed reads and writes of the
    loops, and an access outside the bounds is an error value.
  \<^item> The memo table is threaded through the recursion as explicit state.
\<close>

subsection \<open>Sentinels\<close>

definition NON_MATCH :: real where
  "NON_MATCH = - 1000000000"

text \<open>\<^verbatim>\<open>DBL_MAX\<close>, the largest finite IEEE double.\<close>

definition UNSET :: real where
  "UNSET = (2 ^ 53 - 1) * 2 ^ 971"

subsection \<open>Characters\<close>

definition ord :: "char \<Rightarrow> int" where
  "ord c = of_char c"

text \<open>\<^verbatim>\<open>c >= lo && c <= hi\<close> for two ASCII literals \<open>lo\<close>, \<open>hi\<close>. Both bounds are
  below 128, so the test does not depend on whether \<^verbatim>\<open>char\<close> is signed.\<close>

definition between :: "char \<Rightarrow> char \<Rightarrow> char \<Rightarrow> bool" where
  "between lo hi c = (ord lo \<le> ord c \<and> ord c \<le> ord hi)"

text \<open>\<^verbatim>\<open>c + ('a' - 'A')\<close>, only ever applied to an upper-case letter.\<close>

definition add32 :: "char \<Rightarrow> char" where
  "add32 c = char_of (ord c + 32)"

subsection \<open>Data\<close>

datatype error =
    MemoOutOfBounds int int int
  | ArrayOutOfBounds

text \<open>\<^verbatim>\<open>matchinfo_t\<close>. The field \<^verbatim>\<open>memo\<close> points to the table that the recursion
  mutates; the table itself is the state below.\<close>

record matchinfo =
  haystack_p :: string
  haystack_len :: int
  needle_p :: string
  needle_len :: int
  rightmost_match_p :: "int list"
  max_score_per_char :: real
  always_show_dot_files :: bool
  never_show_dot_files :: bool
  case_sensitive :: bool
  compute_all_scorings :: bool

text \<open>The memo table, and a log of the lookups made in it: each entry is
  the pair \<open>(needle_idx, haystack_idx)\<close> of the call and the value it found in its
  cell. The log is never read by the computation.\<close>

record mstate =
  memo :: "real list"
  lookups :: "(int \<times> int \<times> real) list"

definition in_range :: "'a list \<Rightarrow> int \<Rightarrow> bool" where
  "in_range xs i = (0 \<le> i \<and> i < int (length xs))"

subsection \<open>The recursive scorer\<close>

text \<open>Lines 59 and 69-71: the haystack character as it is compared with the needle
  character. The needle character is compared as it is.\<close>

definition fold_char :: "matchinfo \<Rightarrow> char \<Rightarrow> char" where
  "fold_char m d =
     (if d = CHR ''.'' then d
      else if between CHR ''A'' CHR ''Z'' d \<and> \<not> case_sensitive m then add32 d
      else d)"

text \<open>Lines 59-60 and line 151: the character at \<open>i\<close> is a \<open>.\<close> that starts the
  haystack or follows a \<open>/\<close>.\<close>

definition dot_file_at :: "string \<Rightarrow> int \<Rightarrow> bool" where
  "dot_file_at h i = (h ! nat i = CHR ''.'' \<and> (i = 0 \<or> h ! nat (i - 1) = CHR ''/''))"

text \<open>Lines 59-67: the test that makes the call return \<^verbatim>\<open>NON_MATCH\<close> at once.\<close>

definition dot_wall :: "matchinfo \<Rightarrow> char \<Rightarrow> int \<Rightarrow> bool" where
  "dot_wall m c i =
     (dot_file_at (haystack_p m) i \<and>
      (never_show_dot_files m \<or> (c \<noteq> CHR ''.'' \<and> \<not> always_show_dot_files m)))"

text \<open>Lines 79-102; \<open>prev\<close> and \<open>cur\<close> are the source's \<^verbatim>\<open>last\<close> and \<^verbatim>\<open>curr\<close>.\<close>

definition factor :: "char \<Rightarrow> char \<Rightarrow> int \<Rightarrow> real" where
  "factor prev cur distance =
     (if prev = CHR ''/'' then 0.9
      else if prev = CHR ''-'' \<or> prev = CHR ''_'' \<or> prev = CHR '' '' \<or>
              between CHR ''0'' CHR ''9'' prev then 0.8
      else if between CHR ''a'' CHR ''z'' prev \<and> between CHR ''A'' CHR ''Z'' cur then 0.8
      else if prev = CHR ''.'' then 0.7
      else (1 / real_of_int distance) * 0.75)"

text \<open>Lines 75-104. When \<open>distance > 1\<close> and \<open>haystack_idx \<ge> 0\<close>, the index
  \<open>i - 1\<close> is at least 1.\<close>

definition score_for_char :: "matchinfo \<Rightarrow> int \<Rightarrow> int \<Rightarrow> real" where
  "score_for_char m haystack_idx i =
     (let distance = i - haystack_idx in
      if distance > 1
      then max_score_per_char m *
             factor (haystack_p m ! nat (i - 1)) (haystack_p m ! nat i) distance
      else max_score_per_char m)"

text \<open>\<open>recursive_match\<close> is the function of the source; \<open>match_loop\<close> is its
  \<^verbatim>\<open>for\<close> loop, with the loop variable \<open>i\<close> and the running \<open>score\<close> as
  arguments. The loop returns the value that the call stores in its memo cell
  and returns: the running score at the end of the loop or at \<^verbatim>\<open>break\<close>, and
  \<^verbatim>\<open>NON_MATCH\<close> at the dot-file exit of line 66.\<close>

function recursive_match :: "matchinfo \<Rightarrow> mstate \<Rightarrow> int \<Rightarrow> int \<Rightarrow> error + (real \<times> mstate)"
  and match_loop :: "matchinfo \<Rightarrow> mstate \<Rightarrow> int \<Rightarrow> int \<Rightarrow> int \<Rightarrow> real \<Rightarrow> error + (real \<times> mstate)"
where
  "recursive_match m s haystack_idx needle_idx =
     (if needle_idx = needle_len m then Inr (0, s)
      else if needle_idx > haystack_idx then Inr (NON_MATCH, s)
      else if \<not> in_range (rightmost_match_p m) (needle_len m - 1) then Inl ArrayOutOfBounds
      else if haystack_idx + (needle_len m - needle_idx) >
                rightmost_match_p m ! nat (needle_len m - 1) + 1 then Inr (NON_MATCH, s)
      else
        let idx = needle_idx * needle_len m + haystack_idx in
        if \<not> in_range (memo s) idx then Inl (MemoOutOfBounds needle_idx haystack_idx idx)
        else
          let memoized = memo s ! nat idx;
              s1 = s\<lparr>lookups := lookups s @ [(needle_idx, haystack_idx, memoized)]\<rparr>
          in
          if memoized \<noteq> UNSET then Inr (memoized, s1)
          else if needle_idx = needle_len m then Inr (0, s1\<lparr>memo := (memo s1)[nat idx := 0]\<rparr>)
          else
            (case match_loop m s1 haystack_idx needle_idx haystack_idx NON_MATCH of
               Inl e \<Rightarrow> Inl e
             | Inr (score, s2) \<Rightarrow> Inr (score, s2\<lparr>memo := (memo s2)[nat idx := score]\<rparr>)))"
| "match_loop m s haystack_idx needle_idx i score =
     (if \<not> in_range (rightmost_match_p m) needle_idx \<or> \<not> in_range (needle_p m) needle_idx
      then Inl ArrayOutOfBounds
      else if i \<le> rightmost_match_p m ! nat needle_idx then
        if \<not> in_range (haystack_p m) i then Inl ArrayOutOfBounds
        else
          let c = needle_p m ! nat needle_idx in
          if dot_wall m c i then Inr (NON_MATCH, s)
          else if c = fold_char m (haystack_p m ! nat i) then
            (case recursive_match m s (i + 1) (needle_idx + 1) of
               Inl e \<Rightarrow> Inl e
             | Inr (r, s') \<Rightarrow>
                 let new_score = score_for_char m haystack_idx i + r in
                 if new_score > score then
                   if \<not> compute_all_scorings m then Inr (new_score, s')
                   else match_loop m s' haystack_idx needle_idx (i + 1) new_score
                 else match_loop m s' haystack_idx needle_idx (i + 1) score)
          else match_loop m s haystack_idx needle_idx (i + 1) score
      else Inr (score, s))"
  by pat_completeness auto
termination
  by (relation "measures
        [case_sum
           (\<lambda>(m, s, h, n). 2 * nat (int (length (rightmost_match_p m)) - n) + 1)
           (\<lambda>(m, s, h, n, i, sc). 2 * nat (int (length (rightmost_match_p m)) - n)),
         case_sum
           (\<lambda>(m, s, h, n). 0)
           (\<lambda>(m, s, h, n, i, sc). nat (rightmost_match_p m ! nat n + 1 - i))]")
     (auto simp: in_range_def)

declare recursive_match.simps [simp del] match_loop.simps [simp del]

subsection \<open>The top-level entry point\<close>

text \<open>Lines 149-154, the loop over the haystack for a zero-length needle: \<open>True\<close>
  when the loop reaches its \<^verbatim>\<open>return 0.0\<close>.\<close>

function dot_file_scan :: "matchinfo \<Rightarrow> int \<Rightarrow> error + bool" where
  "dot_file_scan m i =
     (if i < haystack_len m then
        if \<not> in_range (haystack_p m) i then Inl ArrayOutOfBounds
        else if dot_file_at (haystack_p m) i then Inr True
        else dot_file_scan m (i + 1)
      else Inr False)"
  by pat_completeness auto
termination
  by (relation "measure (\<lambda>(m, i). nat (haystack_len m - i))") auto

declare dot_file_scan.simps [simp del]

text \<open>\<^verbatim>\<open>1 << n\<close> on a 32-bit \<^verbatim>\<open>int\<close>, converted to \<^verbatim>\<open>long\<close>. C defines the
  result for \<open>0 \<le> n \<le> 30\<close> only; elsewhere the model has no value for it.\<close>

definition shift_left_1 :: "int \<Rightarrow> 64 word option" where
  "shift_left_1 n = (if 0 \<le> n \<and> n \<le> 30 then Some (push_bit (nat n) 1) else None)"

text \<open>\<^verbatim>\<open>mask |= b\<close>, where either side may be without a value.\<close>

definition or_mask :: "64 word option \<Rightarrow> 64 word option \<Rightarrow> 64 word option" where
  "or_mask a b = (case a of None \<Rightarrow> None | Some x \<Rightarrow> (case b of None \<Rightarrow> None | Some y \<Rightarrow> Some (x OR y)))"

text \<open>Line 172.\<close>

definition lower_of :: "char \<Rightarrow> char" where
  "lower_of c = (if between CHR ''A'' CHR ''Z'' c then add32 c else c)"

text \<open>Lines 170-187, the backward scan, with the loop variable \<open>i\<close>, the needle
  cursor, the mask (\<open>msk\<close>) and the table of rightmost matches as arguments. It returns the
  last three as they are when the loop ends.\<close>

function prescan ::
  "matchinfo \<Rightarrow> bool \<Rightarrow> int \<Rightarrow> int \<Rightarrow> 64 word option \<Rightarrow> int list \<Rightarrow>
     error + (int \<times> 64 word option \<times> int list)" where
  "prescan m compute_bitmasks i needle_idx msk rightmost =
     (if i \<ge> 0 then
        if \<not> in_range (haystack_p m) i then Inl ArrayOutOfBounds
        else
          let lower = lower_of (haystack_p m ! nat i);
              c = (if \<not> case_sensitive m then lower else haystack_p m ! nat i);
              msk' = (if compute_bitmasks
                       then or_mask msk (shift_left_1 (ord lower - ord CHR ''a''))
                       else msk)
          in
          if needle_idx \<ge> 0 then
            if \<not> in_range (needle_p m) needle_idx then Inl ArrayOutOfBounds
            else if c = needle_p m ! nat needle_idx then
              if \<not> in_range rightmost needle_idx then Inl ArrayOutOfBounds
              else prescan m compute_bitmasks (i - 1) (needle_idx - 1) msk'
                     (rightmost[nat needle_idx := i])
            else prescan m compute_bitmasks (i - 1) needle_idx msk' rightmost
          else prescan m compute_bitmasks (i - 1) needle_idx msk' rightmost
      else Inr (needle_idx, msk, rightmost))"
  by pat_completeness auto
termination
  by (relation "measure (\<lambda>(m, cb, i, n, msk, r). nat (i + 1))") auto

declare prescan.simps [simp del]

text \<open>Line 211.\<close>

definition finish :: "real \<Rightarrow> real" where
  "finish score = (if score = NON_MATCH then 0 else score)"

text \<open>Lines 134-143, the initialisation of the struct. The four options are the
  truth values that the source derives from its \<^verbatim>\<open>VALUE\<close> arguments.
  \<^verbatim>\<open>1.0 / 0\<close> is infinite in C and \<open>0\<close> here; the source computes it for an
  empty string and does not use it then.\<close>

definition matchinfo_of ::
  "string \<Rightarrow> string \<Rightarrow> bool \<Rightarrow> bool \<Rightarrow> bool \<Rightarrow> bool \<Rightarrow> matchinfo" where
  "matchinfo_of haystack needle case_sens always_show never_show all_scorings =
     \<lparr>haystack_p = haystack,
      haystack_len = int (length haystack),
      needle_p = needle,
      needle_len = int (length needle),
      rightmost_match_p = [],
      max_score_per_char = (1 / real (length haystack) + 1 / real (length needle)) / 2,
      always_show_dot_files = always_show,
      never_show_dot_files = never_show,
      case_sensitive = case_sens,
      compute_all_scorings = all_scorings\<rparr>"

text \<open>Lines 199-207: the memo table, every cell \<^verbatim>\<open>UNSET\<close>.\<close>

definition fresh_memo :: "matchinfo \<Rightarrow> mstate" where
  "fresh_memo m =
     (let haystack_limit = rightmost_match_p m ! nat (needle_len m - 1) + 1;
          memo_size = haystack_limit * needle_len m -
                        (needle_len m * needle_len m - needle_len m)
      in \<lparr>memo = replicate (nat memo_size) UNSET, lookups = []\<rparr>)"

text \<open>\<^verbatim>\<open>calculate_match\<close>. The result is the returned score together with the
  value of \<^verbatim>\<open>*haystack_bitmask\<close> after the call (\<open>None\<close> when the call stored
  a mask that C leaves undefined). The table \<^verbatim>\<open>rightmost_match_p\<close> is
  uninitialised in the source; the model starts it with zeros.\<close>

definition calculate_match ::
  "string \<Rightarrow> string \<Rightarrow> bool \<Rightarrow> bool \<Rightarrow> bool \<Rightarrow> bool \<Rightarrow> 64 word \<Rightarrow> 64 word \<Rightarrow>
     error + (real \<times> 64 word option)" where
  "calculate_match haystack needle case_sens always_show never_show all_scorings
       needle_bitmask haystack_bitmask =
     (let compute_bitmasks = (haystack_bitmask = 0);
          m = matchinfo_of haystack needle case_sens always_show never_show all_scorings
      in
      if needle_len m = 0 then
        if \<not> always_show_dot_files m then
          (case dot_file_scan m 0 of
             Inl e \<Rightarrow> Inl e
           | Inr found \<Rightarrow>
               if found then Inr (0, Some haystack_bitmask)
               else Inr (finish 1, Some haystack_bitmask))
        else Inr (finish 1, Some haystack_bitmask)
      else if haystack_len m > 0 then
        if haystack_bitmask \<noteq> 0 \<and> (needle_bitmask AND haystack_bitmask) \<noteq> needle_bitmask
        then Inr (0, Some haystack_bitmask)
        else
          (case prescan m compute_bitmasks (haystack_len m - 1) (needle_len m - 1) (Some 0)
                  (replicate (nat (needle_len m)) 0) of
             Inl e \<Rightarrow> Inl e
           | Inr (needle_idx, msk, rightmost) \<Rightarrow>
               let bitmask' = (if compute_bitmasks then msk else Some haystack_bitmask) in
               if needle_idx \<noteq> - 1 then Inr (0, bitmask')
               else
                 let m' = m\<lparr>rightmost_match_p := rightmost\<rparr> in
                 (case recursive_match m' (fresh_memo m') 0 0 of
                    Inl e \<Rightarrow> Inl e
                  | Inr (score, s) \<Rightarrow> Inr (finish score, bitmask')))
      else Inr (finish 1, Some haystack_bitmask))"

text \<open>The score of a result, when there is one.\<close>

definition score_of :: "error + (real \<times> 64 word option) \<Rightarrow> real option" where
  "score_of r = (case r of Inl e \<Rightarrow> None | Inr (score, b) \<Rightarrow> Some score)"

text \<open>The spec's reading of a hidden path: some \<open>.\<close> of the haystack is its first
  character or immediately follows a \<open>/\<close>.\<close>

definition dot_at :: "string \<Rightarrow> nat \<Rightarrow> bool" where
  "dot_at h j = (h ! j = CHR ''.'' \<and> (j = 0 \<or> h ! (j - 1) = CHR ''/''))"

definition has_dot_segment :: "string \<Rightarrow> bool" where
  "has_dot_segment h = (\<exists>j \<in> {0..<length h}. dot_at h j)"

text \<open>The haystack as the backward scan compares it: lower-cased unless the match is
  case-sensitive.\<close>

definition folded :: "bool \<Rightarrow> string \<Rightarrow> string" where
  "folded case_sens h = (if case_sens then h else map lower_of h)"

subsection \<open>Predicates used in the proofs\<close>

text \<open>Every cell of the memo table is at least \<^verbatim>\<open>NON_MATCH\<close> (an unset cell is).\<close>

definition memo_ok :: "mstate \<Rightarrow> bool" where
  "memo_ok s = (\<forall>x \<in> set (memo s). NON_MATCH \<le> x)"

text \<open>Every cell of the memo table is unset, as at the start of a call.\<close>

definition all_unset :: "mstate \<Rightarrow> bool" where
  "all_unset s = (\<forall>x \<in> set (memo s). x = UNSET)"

text \<open>The dot-file exit of line 66 cannot be taken at any position of the haystack.\<close>

definition no_walls :: "matchinfo \<Rightarrow> bool" where
  "no_walls m = (\<forall>c i. in_range (haystack_p m) i \<longrightarrow> \<not> dot_wall m c i)"

text \<open>Every cell of the memo table is positive (an unset cell is).\<close>

definition memo_pos :: "mstate \<Rightarrow> bool" where
  "memo_pos s = (\<forall>x \<in> set (memo s). 0 < x)"

text \<open>The table of rightmost matches as the backward scan has filled it above the
  needle cursor \<open>n\<close> when it stands at haystack position \<open>i\<close>: each entry lies to the
  right of \<open>i\<close>, inside the haystack, at a character that the scan compares equal to
  the needle character, and the entries increase.\<close>

definition table_from :: "matchinfo \<Rightarrow> int list \<Rightarrow> int \<Rightarrow> int \<Rightarrow> bool" where
  "table_from m rm n i =
     (length rm = length (needle_p m) \<and>
      (\<forall>k. n < int k \<and> k < length (needle_p m) \<longrightarrow>
           i < rm ! k \<and> rm ! k < int (length (haystack_p m)) \<and>
           needle_p m ! k = folded (case_sensitive m) (haystack_p m) ! nat (rm ! k)) \<and>
      (\<forall>k k'. n < int k \<and> k < k' \<and> k' < length (needle_p m) \<longrightarrow> rm ! k < rm ! k'))"

text \<open>The table of a call whose backward scan consumed the whole needle.\<close>

definition table_ok :: "matchinfo \<Rightarrow> bool" where
  "table_ok m = (needle_len m = int (length (needle_p m)) \<and>
                 table_from m (rightmost_match_p m) (- 1) (- 1))"

text \<open>The same call with \<^verbatim>\<open>compute_all_scorings\<close> set.\<close>

abbreviation exhaustive :: "matchinfo \<Rightarrow> matchinfo" where
  "exhaustive m \<equiv> m\<lparr>compute_all_scorings := True\<rparr>"

section \<open>Evaluation\<close>

lemma eq_char_of_iff: "c = char_of n \<longleftrightarrow> take_bit 8 n = (of_char c :: int)"
  using char_of_eq_iff [of n c] by auto

lemmas eval_defs = char_of_eq_iff eq_char_of_iff calculate_match_def matchinfo_of_def fresh_memo_def finish_def
  NON_MATCH_def in_range_def fold_char_def dot_file_at_def dot_wall_def factor_def score_for_char_def
  between_def ord_def add32_def lower_of_def shift_left_1_def or_mask_def score_of_def Let_def

lemmas eval_simps = prescan.simps recursive_match.simps match_loop.simps dot_file_scan.simps

section \<open>The entry point on non-empty strings\<close>

text \<open>When neither string is empty and the signatures do not exclude a match, the call
  is the backward scan followed, if the scan succeeds, by the recursive scorer.\<close>

lemma calculate_match_normal:
  assumes "nd \<noteq> []" "h \<noteq> []" "\<not> (hb \<noteq> 0 \<and> nb AND hb \<noteq> nb)"
  shows "calculate_match h nd cs al nv ex nb hb =
    (case prescan (matchinfo_of h nd cs al nv ex) (hb = 0) (int (length h) - 1)
            (int (length nd) - 1) (Some 0) (replicate (length nd) 0) of
       Inl e \<Rightarrow> Inl e
     | Inr (nidx, msk, rm) \<Rightarrow>
         if nidx \<noteq> - 1 then Inr (0, if hb = 0 then msk else Some hb)
         else (case recursive_match ((matchinfo_of h nd cs al nv ex)\<lparr>rightmost_match_p := rm\<rparr>)
                     (fresh_memo ((matchinfo_of h nd cs al nv ex)\<lparr>rightmost_match_p := rm\<rparr>)) 0 0 of
                 Inl e \<Rightarrow> Inl e
               | Inr (score, s) \<Rightarrow> Inr (finish score, if hb = 0 then msk else Some hb)))"
proof -
  have sel: "needle_len (matchinfo_of h nd cs al nv ex) = int (length nd)"
    "haystack_len (matchinfo_of h nd cs al nv ex) = int (length h)"
    by (simp_all add: matchinfo_of_def)
  from assms show ?thesis
    unfolding calculate_match_def Let_def sel
    by (auto split: sum.splits prod.splits)
qed

section \<open>The score is not always in the unit interval\<close>

text \<open>
  Claim C1: for every haystack and every non-empty needle the returned score lies in
  \<open>[0, 1]\<close>, and the no-match sentinel never reaches the caller, not even added to
  the contribution of a character.

  The source does not keep this. For the needle \<open>ab\<close> and the haystack \<open>a/.b\<close>,
  with hidden files neither forced nor suppressed, the call for \<open>b\<close> stops at the
  \<open>.\<close> after the \<open>/\<close> and returns the sentinel; the caller adds \<open>0.375\<close> for the
  \<open>a\<close>, the sum is larger than the sentinel, and line 211 compares with the
  sentinel itself only. All numbers involved are exact in binary floating point.
\<close>

theorem sentinel_leaks_into_score:
  "score_of (calculate_match ''a/.b'' ''ab'' cs False False ex 3 0) = Some (- 999999999.625)"
  by (simp add: eval_defs eval_simps UNSET_def)

section \<open>The empty needle\<close>

lemma dot_file_at_nat: "0 \<le> i \<Longrightarrow> dot_file_at h i = dot_at h (nat i)"
proof -
  assume "0 \<le> i"
  then have "nat (i - 1) = nat i - 1" "(i = 0) = (nat i = 0)" by auto
  then show ?thesis by (simp add: dot_at_def dot_file_at_def)
qed

lemma dot_file_scan_eq:
  "haystack_len m = int (length (haystack_p m)) \<Longrightarrow> 0 \<le> i \<Longrightarrow>
   dot_file_scan m i = Inr (\<exists>j \<in> {nat i..<length (haystack_p m)}. dot_at (haystack_p m) j)"
proof (induction m i rule: dot_file_scan.induct)
  case (1 m i)
  let ?h = "haystack_p m"
  show ?case
  proof (cases "i < haystack_len m")
    case False
    with 1 show ?thesis by (simp add: dot_file_scan.simps [of m i])
  next
    case True
    with 1 have rng: "in_range ?h i" by (simp add: in_range_def)
    have test: "dot_file_at ?h i = dot_at ?h (nat i)"
      using \<open>0 \<le> i\<close> by (rule dot_file_at_nat)
    show ?thesis
    proof (cases "dot_at ?h (nat i)")
      case d: True
      from True 1 have "nat i \<in> {nat i..<length ?h}" by simp
      with d have "\<exists>j \<in> {nat i..<length ?h}. dot_at ?h j" by blast
      with True rng test d show ?thesis by (simp add: dot_file_scan.simps [of m i])
    next
      case d: False
      have "dot_file_scan m i = dot_file_scan m (i + 1)"
        using True rng test d by (simp add: dot_file_scan.simps [of m i])
      also have "\<dots> = Inr (\<exists>j \<in> {nat (i + 1)..<length ?h}. dot_at ?h j)"
        using 1 True rng test d by simp
      also have "(\<exists>j \<in> {nat (i + 1)..<length ?h}. dot_at ?h j) =
                 (\<exists>j \<in> {nat i..<length ?h}. dot_at ?h j)"
      proof -
        have "{nat i..<length ?h} = insert (nat i) {nat (i + 1)..<length ?h}"
          using True 1 by auto
        with d show ?thesis by simp
      qed
      finally show ?thesis .
    qed
  qed
qed

text \<open>
  Claim C2: for every haystack, an empty needle scores exactly 0, whether the haystack
  is rejected by the dot-file rule or not; in particular the empty needle against
  \<open>git\<close>, with \<open>always_show_dot_files\<close> false, scores 0 and not 1.

  The source starts with \<open>score = 1.0\<close> (line 132) and, for a zero-length needle,
  only ever leaves through \<^verbatim>\<open>return 0.0\<close> of the dot-file filter or through line 211
  with that 1: an empty needle matches every visible path. On \<open>git\<close> it returns 1.
\<close>

theorem empty_needle_git_scores_one:
  "calculate_match ''git'' '''' False False False False 0 0 = Inr (1, Some 0)"
  by (simp add: eval_defs eval_simps)

text \<open>
  Claim C2, amended: for every haystack, an empty needle scores 0 when
  \<open>always_show_dot_files\<close> is false and some \<open>.\<close> of the haystack starts it or
  follows a \<open>/\<close>, and scores 1 otherwise; the signature is left as it was.
\<close>

theorem empty_needle_score:
  "calculate_match h [] cs al nv ex nb hb =
     Inr (if \<not> al \<and> has_dot_segment h then 0 else 1, Some hb)"
proof -
  let ?m = "matchinfo_of h [] cs al nv ex"
  have "dot_file_scan ?m 0 =
          Inr (\<exists>j \<in> {nat 0..<length (haystack_p ?m)}. dot_at (haystack_p ?m) j)"
    by (rule dot_file_scan_eq) (simp_all add: matchinfo_of_def)
  then have scan: "dot_file_scan ?m 0 = Inr (has_dot_segment h)"
    by (simp add: matchinfo_of_def has_dot_segment_def)
  have sel: "needle_len ?m = 0" "always_show_dot_files ?m = al"
    by (simp_all add: matchinfo_of_def)
  show ?thesis
  proof (cases al)
    case True
    with sel show ?thesis
      unfolding calculate_match_def Let_def by (simp add: finish_def NON_MATCH_def)
  next
    case False
    with sel scan show ?thesis
      unfolding calculate_match_def Let_def by (simp add: finish_def NON_MATCH_def)
  qed
qed

theorem empty_needle_score_witness:
  "calculate_match ''.git'' [] False False False False 0 0 = Inr (0, Some 0) \<and>
   calculate_match ''src/.git'' [] False True False False 0 0 = Inr (1, Some 0) \<and>
   calculate_match ''a.b'' [] False False False False 0 0 = Inr (1, Some 0)"
  using empty_needle_score [of "''.git''" False False False False 0 0]
    empty_needle_score [of "''src/.git''" False True False False 0 0]
    empty_needle_score [of "''a.b''" False False False False 0 0]
  by (simp add: has_dot_segment_def dot_at_def atLeast0_lessThan_Suc)

section \<open>The empty haystack\<close>

text \<open>
  Claim C3: a non-empty needle against an empty haystack short-circuits to the score 0.

  In the source the branch for the normal case is guarded by \<open>haystack_len > 0\<close>
  (line 156) and has no \<^verbatim>\<open>else\<close>: with an empty haystack and a non-empty needle
  neither branch runs, and line 211 returns the initial \<open>score = 1.0\<close>.
\<close>

theorem empty_haystack_scores_one:
  "calculate_match [] (c # needle) cs al nv ex nb hb = Inr (1, Some hb)"
  by (simp add: eval_defs)

section \<open>Needles that are not subsequences\<close>

text \<open>
  Claim C5: for every needle and haystack, when the needle is not a subsequence of the
  (case-folded) haystack the score is exactly 0, decided by the backward scan.

  The backward scan runs only for a non-empty haystack. The needle \<open>ab\<close> is not a
  subsequence of the empty haystack, and the source returns 1 there: the same missing
  branch as for claim C3.
\<close>

theorem empty_haystack_non_subsequence_scores_one:
  "\<not> subseq ''ab'' (folded False '''') \<and>
   score_of (calculate_match '''' ''ab'' False False False False 3 0) = Some 1"
  by (simp add: eval_defs folded_def)

text \<open>
  On a non-empty haystack the backward scan does decide: when it consumes the whole
  needle, the needle is a subsequence of the folded haystack, so a needle that is not
  one stops the call at line 192 with the score 0.
\<close>

lemma folded_nth:
  "j < length h \<Longrightarrow> folded cs h ! j = (if \<not> cs then lower_of (h ! j) else h ! j)"
  by (simp add: folded_def)

lemma length_folded [simp]: "length (folded cs h) = length h"
  by (simp add: folded_def)

lemma take_nat_Suc:
  "0 \<le> i \<Longrightarrow> i < int (length xs) \<Longrightarrow> take (nat (i + 1)) xs = take (nat i) xs @ [xs ! nat i]"
proof -
  assume a: "0 \<le> i" "i < int (length xs)"
  then have "nat (i + 1) = Suc (nat i)" "nat i < length xs" by auto
  then show ?thesis by (simp add: take_Suc_conv_app_nth)
qed

lemma prescan_sound:
  "- 1 \<le> i \<Longrightarrow> i < int (length (haystack_p m)) \<Longrightarrow> - 1 \<le> n \<Longrightarrow>
   n < int (length (needle_p m)) \<Longrightarrow> length rm = length (needle_p m) \<Longrightarrow>
   \<exists>nidx msk' rm'. prescan m cb i n msk rm = Inr (nidx, msk', rm') \<and>
     (nidx = - 1 \<longrightarrow>
        subseq (take (nat (n + 1)) (needle_p m))
               (take (nat (i + 1)) (folded (case_sensitive m) (haystack_p m))))"
proof (induction m cb i n msk rm rule: prescan.induct)
  case (1 m cb i n msk rm)
  let ?h = "haystack_p m" and ?nd = "needle_p m"
  let ?f = "folded (case_sensitive m) ?h"
  show ?case
  proof (cases "0 \<le> i")
    case False
    then have "prescan m cb i n msk rm = Inr (n, msk, rm)"
      by (simp add: prescan.simps [of m cb i n msk rm])
    moreover from False "1.prems" have "nat (i + 1) = 0" by simp
    ultimately show ?thesis by simp
  next
    case i0: True
    with "1.prems" have hr: "in_range ?h i" by (simp add: in_range_def)
    let ?lower = "lower_of (?h ! nat i)"
    let ?c = "if \<not> case_sensitive m then ?lower else ?h ! nat i"
    let ?msk = "if cb then or_mask msk (shift_left_1 (ord ?lower - ord CHR ''a'')) else msk"
    have c: "?c = ?f ! nat i" using i0 "1.prems" by (simp add: folded_nth nat_less_iff)
    have ti: "take (nat (i + 1)) ?f = take (nat i) ?f @ [?c]"
      using i0 "1.prems" c take_nat_Suc [of i ?f] by simp
    have im: "nat (i - 1 + 1) = nat i" by simp
    show ?thesis
    proof (cases "0 \<le> n")
      case False
      have eq: "prescan m cb i n msk rm = prescan m cb (i - 1) n ?msk rm"
        using i0 hr False by (simp add: prescan.simps [of m cb i n msk rm] Let_def)
      have "\<exists>nidx msk' rm'. prescan m cb (i - 1) n ?msk rm = Inr (nidx, msk', rm') \<and>
          (nidx = - 1 \<longrightarrow> subseq (take (nat (n + 1)) ?nd) (take (nat (i - 1 + 1)) ?f))"
        using i0 hr False "1.prems"
        by (intro "1.IH"(3) [OF i0 _ refl refl refl False]) simp_all
      then obtain nidx msk' rm' where r: "prescan m cb (i - 1) n ?msk rm = Inr (nidx, msk', rm')"
        by auto
      from False "1.prems" have "nat (n + 1) = 0" by simp
      with r eq show ?thesis by simp
    next
      case n0: True
      with "1.prems" have nr: "in_range ?nd n" "in_range rm n" by (simp_all add: in_range_def)
      show ?thesis
      proof (cases "?c = ?nd ! nat n")
        case True
        have eq: "prescan m cb i n msk rm = prescan m cb (i - 1) (n - 1) ?msk (rm[nat n := i])"
          using i0 hr n0 nr True by (simp add: prescan.simps [of m cb i n msk rm] Let_def)
        have "\<exists>nidx msk' rm'. prescan m cb (i - 1) (n - 1) ?msk (rm[nat n := i]) = Inr (nidx, msk', rm') \<and>
            (nidx = - 1 \<longrightarrow> subseq (take (nat (n - 1 + 1)) ?nd) (take (nat (i - 1 + 1)) ?f))"
          using i0 hr n0 nr True "1.prems"
          by (intro "1.IH"(1) [OF i0 _ refl refl refl n0 _ True]) simp_all
        then obtain nidx msk' rm' where r: "prescan m cb (i - 1) (n - 1) ?msk (rm[nat n := i]) = Inr (nidx, msk', rm')"
          "nidx = - 1 \<longrightarrow> subseq (take (nat n) ?nd) (take (nat i) ?f)" by auto
        have tn: "take (nat (n + 1)) ?nd = take (nat n) ?nd @ [?c]"
          using n0 "1.prems" True take_nat_Suc [of n ?nd] by simp
        have "nidx = - 1 \<longrightarrow> subseq (take (nat (n + 1)) ?nd) (take (nat (i + 1)) ?f)"
          using r(2) unfolding tn ti by simp
        with r(1) eq show ?thesis by simp
      next
        case False
        have eq: "prescan m cb i n msk rm = prescan m cb (i - 1) n ?msk rm"
          using i0 hr n0 nr False by (simp add: prescan.simps [of m cb i n msk rm] Let_def)
        have "\<exists>nidx msk' rm'. prescan m cb (i - 1) n ?msk rm = Inr (nidx, msk', rm') \<and>
            (nidx = - 1 \<longrightarrow> subseq (take (nat (n + 1)) ?nd) (take (nat (i - 1 + 1)) ?f))"
          using i0 hr n0 nr False "1.prems"
          by (intro "1.IH"(2) [OF i0 _ refl refl refl n0 _ False]) simp_all
        then obtain nidx msk' rm' where r: "prescan m cb (i - 1) n ?msk rm = Inr (nidx, msk', rm')"
          "nidx = - 1 \<longrightarrow> subseq (take (nat (n + 1)) ?nd) (take (nat i) ?f)" by auto
        have "nidx = - 1 \<longrightarrow> subseq (take (nat (n + 1)) ?nd) (take (nat (i + 1)) ?f)"
          using r(2) unfolding ti by (auto intro: list_emb_prefix)
        with r(1) eq show ?thesis by simp
      qed
    qed
  qed
qed


lemma non_subsequence_scores_zero:
  assumes "h \<noteq> []" "\<not> subseq nd (folded cs h)"
  shows "score_of (calculate_match h nd cs al nv ex nb hb) = Some 0"
proof -
  from assms(2) have nd: "nd \<noteq> []" by auto
  let ?m = "matchinfo_of h nd cs al nv ex"
  have sel: "needle_len ?m = int (length nd)" "haystack_len ?m = int (length h)"
    "haystack_p ?m = h" "needle_p ?m = nd" "case_sensitive ?m = cs"
    by (simp_all add: matchinfo_of_def)
  show ?thesis
  proof (cases "hb \<noteq> 0 \<and> nb AND hb \<noteq> nb")
    case True
    with nd assms(1) show ?thesis
      unfolding calculate_match_def Let_def sel by (simp add: score_of_def)
  next
    case False
    have "\<exists>nidx msk' rm'.
        prescan ?m (hb = 0) (int (length h) - 1) (int (length nd) - 1) (Some 0)
          (replicate (length nd) 0) = Inr (nidx, msk', rm') \<and>
        (nidx = - 1 \<longrightarrow>
           subseq (take (nat (int (length nd) - 1 + 1)) (needle_p ?m))
                  (take (nat (int (length h) - 1 + 1)) (folded (case_sensitive ?m) (haystack_p ?m))))"
      by (rule prescan_sound) (simp_all add: sel)
    then obtain nidx msk' rm' where
      ps: "prescan ?m (hb = 0) (int (length h) - 1) (int (length nd) - 1) (Some 0)
             (replicate (length nd) 0) = Inr (nidx, msk', rm')"
      and sub: "nidx = - 1 \<longrightarrow> subseq nd (folded cs h)"
      by (auto simp: sel)
    from sub assms(2) have "nidx \<noteq> - 1" by auto
    with ps show ?thesis
      by (simp add: calculate_match_normal [OF nd assms(1) False] score_of_def)
  qed
qed

section \<open>The memo table\<close>

text \<open>
  Claim C6: within one scoring call a memo lookup at a pair \<open>(needle_idx, haystack_idx)\<close>
  finds either the unset sentinel or a value stored for that same pair, the index
  \<open>needle_idx * needle_len + haystack_idx\<close> being injective on the pairs that are reached.

  The needle \<open>abc\<close> against the haystack \<open>abxxaxbc\<close>, all scorings computed: the scan
  gives the rightmost matches 4, 6, 7 and a table of 18 cells. The calls at
  \<open>(needle_idx, haystack_idx) = (2, 2)\<close> and \<open>(1, 5)\<close> both use cell 8. The call at
  \<open>(2, 2)\<close> finds it unset and stores \<open>11/320\<close>; the call at \<open>(1, 5)\<close>, the first
  and only one at that pair, finds \<open>11/320\<close> and returns it.
\<close>

theorem memo_cell_shared_by_two_calls:
  "prescan (matchinfo_of ''abxxaxbc'' ''abc'' False False False True) True 7 2 (Some 0) [0, 0, 0]
     = Inr (- 1, Some 8388615, [4, 6, 7]) \<and>
   (case recursive_match
           ((matchinfo_of ''abxxaxbc'' ''abc'' False False False True)
              \<lparr>rightmost_match_p := [4, 6, 7]\<rparr>)
           (fresh_memo ((matchinfo_of ''abxxaxbc'' ''abc'' False False False True)
              \<lparr>rightmost_match_p := [4, 6, 7]\<rparr>)) 0 0 of
      Inl e \<Rightarrow> False
    | Inr (score, s) \<Rightarrow>
        score = 473 / 960 \<and>
        lookups s = [(0, 0, UNSET), (1, 1, UNSET), (2, 2, UNSET), (2, 7, UNSET), (1, 5, 11 / 320)] \<and>
        memo s ! 8 = 11 / 320) \<and>
   (2 * 3 + 2 = (8::int)) \<and> (1 * 3 + 5 = (8::int)) \<and>
   calculate_match ''abxxaxbc'' ''abc'' False False False True 7 0 = Inr (473 / 960, Some 8388615)"
  by (simp add: eval_defs eval_simps UNSET_def)

text \<open>
  Claim C7: at every pair at which \<open>recursive_match\<close> reads or writes the memo table,
  the index \<open>needle_idx * needle_len + haystack_idx\<close> is at least 0 and below the
  allocated size \<open>haystack_limit * needle_len - (needle_len * needle_len - needle_len)\<close>.

  The needle \<open>ab\<close> against the haystack \<open>ab\<close>: the table has \<open>2 * 2 - (4 - 2) = 2\<close>
  cells, and the call at \<open>(needle_idx, haystack_idx) = (1, 1)\<close> uses index 3.
\<close>

theorem memo_access_out_of_bounds:
  "length (memo (fresh_memo ((matchinfo_of ''ab'' ''ab'' cs al nv ex)
                              \<lparr>rightmost_match_p := [0, 1]\<rparr>))) = 2 \<and>
   calculate_match ''ab'' ''ab'' cs al nv ex 3 0 = Inl (MemoOutOfBounds 1 1 3)"
  by (simp add: eval_defs eval_simps UNSET_def)

section \<open>The haystack signature\<close>

text \<open>
  Claim C8: after a call that computes the haystack signature, the signature has, for
  each lower-case letter, its bit set exactly when the letter occurs in the folded
  haystack, and no bit outside the 26 letter positions, whatever characters the
  haystack contains.

  Line 177 shifts by \<open>lower - 'a'\<close> for every character, letter or not. For the
  haystack \<open>a{\<close> the character \<open>{\<close> (123) sets bit 26.
\<close>

theorem signature_bit_outside_letters:
  "calculate_match ''a{'' ''a'' cs al nv ex nb 0 = Inr (3 / 4, Some 67108865) \<and>
   bit (67108865 :: 64 word) 26"
  by (simp add: eval_defs eval_simps UNSET_def)

section \<open>Exhaustive scoring\<close>

subsection \<open>The branches of the scorer\<close>

text \<open>What a successful call of \<open>recursive_match\<close> and a successful run of its loop
  can have done, one case for each way through the source.\<close>

lemma recursive_match_cases:
  assumes "recursive_match m s h n = Inr (r, s')"
  obtains
    (base) "n = needle_len m" "r = 0" "s' = s"
  | (too_far_left) "n \<noteq> needle_len m" "h < n" "r = NON_MATCH" "s' = s"
  | (too_far_right) "n \<noteq> needle_len m" "\<not> h < n"
      "in_range (rightmost_match_p m) (needle_len m - 1)"
      "rightmost_match_p m ! nat (needle_len m - 1) + 1 < h + (needle_len m - n)"
      "r = NON_MATCH" "s' = s"
  | (hit) "n \<noteq> needle_len m" "\<not> h < n"
      "in_range (rightmost_match_p m) (needle_len m - 1)"
      "\<not> rightmost_match_p m ! nat (needle_len m - 1) + 1 < h + (needle_len m - n)"
      "in_range (memo s) (n * needle_len m + h)"
      "memo s ! nat (n * needle_len m + h) \<noteq> UNSET"
      "r = memo s ! nat (n * needle_len m + h)"
      "s' = s\<lparr>lookups := lookups s @ [(n, h, r)]\<rparr>"
  | (search) s2 where "n \<noteq> needle_len m" "\<not> h < n"
      "in_range (rightmost_match_p m) (needle_len m - 1)"
      "\<not> rightmost_match_p m ! nat (needle_len m - 1) + 1 < h + (needle_len m - n)"
      "in_range (memo s) (n * needle_len m + h)"
      "memo s ! nat (n * needle_len m + h) = UNSET"
      "match_loop m (s\<lparr>lookups := lookups s @ [(n, h, UNSET)]\<rparr>) h n h NON_MATCH = Inr (r, s2)"
      "s' = s2\<lparr>memo := (memo s2)[nat (n * needle_len m + h) := r]\<rparr>"
proof -
  note eq = assms [unfolded recursive_match.simps [of m s h n] Let_def]
  show thesis
  proof (cases "n = needle_len m")
    case True
    with eq show thesis by (intro base) simp_all
  next
    case nL: False
    show thesis
    proof (cases "h < n")
      case True
      with eq nL show thesis by (intro too_far_left) simp_all
    next
      case hn: False
      from eq nL hn have rng: "in_range (rightmost_match_p m) (needle_len m - 1)"
        by (simp split: if_splits)
      show thesis
      proof (cases "rightmost_match_p m ! nat (needle_len m - 1) + 1 < h + (needle_len m - n)")
        case True
        with eq nL hn rng show thesis by (intro too_far_right) simp_all
      next
        case fit: False
        from eq nL hn rng fit have mr: "in_range (memo s) (n * needle_len m + h)"
          by (simp split: if_splits)
        show thesis
        proof (cases "memo s ! nat (n * needle_len m + h) = UNSET")
          case False
          with eq nL hn rng fit mr show thesis by (intro hit) auto
        next
          case True
          let ?s1 = "s\<lparr>lookups := lookups s @ [(n, h, UNSET)]\<rparr>"
          from eq nL hn rng fit mr True
          have eq': "(case match_loop m ?s1 h n h NON_MATCH of
                        Inl e \<Rightarrow> Inl e
                      | Inr (score, s2) \<Rightarrow>
                          Inr (score, s2\<lparr>memo := (memo s2)[nat (n * needle_len m + h) := score]\<rparr>))
                     = Inr (r, s')"
            by simp
          show thesis
          proof (cases "match_loop m ?s1 h n h NON_MATCH")
            case (Inl e)
            with eq' show thesis by simp
          next
            case (Inr p)
            obtain r0 s2 where p: "p = (r0, s2)" by (cases p)
            with Inr eq' have "r0 = r" "s' = s2\<lparr>memo := (memo s2)[nat (n * needle_len m + h) := r]\<rparr>"
              by auto
            with Inr p nL hn rng fit mr True show thesis by (intro search) simp_all
          qed
        qed
      qed
    qed
  qed
qed


lemma match_loop_cases:
  assumes "match_loop m s h n i sc = Inr (r, s')"
  obtains
    (finished) "in_range (rightmost_match_p m) n" "in_range (needle_p m) n"
      "\<not> i \<le> rightmost_match_p m ! nat n" "r = sc" "s' = s"
  | (wall) "in_range (rightmost_match_p m) n" "in_range (needle_p m) n"
      "i \<le> rightmost_match_p m ! nat n" "in_range (haystack_p m) i"
      "dot_wall m (needle_p m ! nat n) i" "r = NON_MATCH" "s' = s"
  | (differ) "in_range (rightmost_match_p m) n" "in_range (needle_p m) n"
      "i \<le> rightmost_match_p m ! nat n" "in_range (haystack_p m) i"
      "\<not> dot_wall m (needle_p m ! nat n) i"
      "needle_p m ! nat n \<noteq> fold_char m (haystack_p m ! nat i)"
      "match_loop m s h n (i + 1) sc = Inr (r, s')"
  | (stop) ra where "in_range (rightmost_match_p m) n" "in_range (needle_p m) n"
      "i \<le> rightmost_match_p m ! nat n" "in_range (haystack_p m) i"
      "\<not> dot_wall m (needle_p m ! nat n) i"
      "needle_p m ! nat n = fold_char m (haystack_p m ! nat i)"
      "recursive_match m s (i + 1) (n + 1) = Inr (ra, s')"
      "sc < score_for_char m h i + ra" "\<not> compute_all_scorings m"
      "r = score_for_char m h i + ra"
  | (better) ra sa where "in_range (rightmost_match_p m) n" "in_range (needle_p m) n"
      "i \<le> rightmost_match_p m ! nat n" "in_range (haystack_p m) i"
      "\<not> dot_wall m (needle_p m ! nat n) i"
      "needle_p m ! nat n = fold_char m (haystack_p m ! nat i)"
      "recursive_match m s (i + 1) (n + 1) = Inr (ra, sa)"
      "sc < score_for_char m h i + ra" "compute_all_scorings m"
      "match_loop m sa h n (i + 1) (score_for_char m h i + ra) = Inr (r, s')"
  | (worse) ra sa where "in_range (rightmost_match_p m) n" "in_range (needle_p m) n"
      "i \<le> rightmost_match_p m ! nat n" "in_range (haystack_p m) i"
      "\<not> dot_wall m (needle_p m ! nat n) i"
      "needle_p m ! nat n = fold_char m (haystack_p m ! nat i)"
      "recursive_match m s (i + 1) (n + 1) = Inr (ra, sa)"
      "\<not> sc < score_for_char m h i + ra"
      "match_loop m sa h n (i + 1) sc = Inr (r, s')"
proof -
  note eq = assms [unfolded match_loop.simps [of m s h n i sc] Let_def]
  from eq have rng: "in_range (rightmost_match_p m) n" "in_range (needle_p m) n"
    by (simp_all split: if_splits)
  show thesis
  proof (cases "i \<le> rightmost_match_p m ! nat n")
    case False
    with eq rng show thesis by (intro finished) simp_all
  next
    case le: True
    from eq rng le have hr: "in_range (haystack_p m) i"
      by (simp split: if_splits)
    show thesis
    proof (cases "dot_wall m (needle_p m ! nat n) i")
      case True
      with eq rng le hr show thesis by (intro wall) simp_all
    next
      case nw: False
      show thesis
      proof (cases "needle_p m ! nat n = fold_char m (haystack_p m ! nat i)")
        case False
        with eq rng le hr nw show thesis by (intro differ) simp_all
      next
        case same: True
        show thesis
        proof (cases "recursive_match m s (i + 1) (n + 1)")
          case (Inl e)
          with eq rng le hr nw same show thesis by simp
        next
          case (Inr p)
          obtain ra sa where p: "p = (ra, sa)" by (cases p)
          from eq rng le hr nw same Inr p
          have eq': "(if sc < score_for_char m h i + ra
                      then if \<not> compute_all_scorings m then Inr (score_for_char m h i + ra, sa)
                           else match_loop m sa h n (i + 1) (score_for_char m h i + ra)
                      else match_loop m sa h n (i + 1) sc) = Inr (r, s')"
            by simp
          show thesis
          proof (cases "sc < score_for_char m h i + ra")
            case False
            with eq' rng le hr nw same Inr p show thesis by (intro worse [of ra sa]) simp_all
          next
            case lt: True
            show thesis
            proof (cases "compute_all_scorings m")
              case True
              with eq' lt rng le hr nw same Inr p show thesis by (intro better [of ra sa]) simp_all
            next
              case False
              with eq' lt rng le hr nw same Inr p show thesis by (intro stop [of ra]) auto
            qed
          qed
        qed
      qed
    qed
  qed
qed


lemma memo_ok_lookups [simp]: "memo_ok (s\<lparr>lookups := l\<rparr>) = memo_ok s"
  by (simp add: memo_ok_def)

lemma memo_ok_update: "memo_ok s \<Longrightarrow> NON_MATCH \<le> r \<Longrightarrow> memo_ok (s\<lparr>memo := (memo s)[k := r]\<rparr>)"
  unfolding memo_ok_def using set_update_subset_insert [of "memo s" k r] by auto

lemma memo_ok_nth: "memo_ok s \<Longrightarrow> in_range (memo s) idx \<Longrightarrow> NON_MATCH \<le> memo s ! nat idx"
proof -
  assume a: "memo_ok s" "in_range (memo s) idx"
  then have "nat idx < length (memo s)" by (simp add: in_range_def nat_less_iff)
  then have "memo s ! nat idx \<in> set (memo s)" by (rule nth_mem)
  with a show ?thesis by (simp add: memo_ok_def)
qed

lemma lower_bound:
  "recursive_match m s h n = Inr (r, s') \<Longrightarrow> memo_ok s \<Longrightarrow> NON_MATCH \<le> r \<and> memo_ok s'"
  "match_loop m s h n i sc = Inr (r, s') \<Longrightarrow> memo_ok s \<Longrightarrow> NON_MATCH \<le> sc \<Longrightarrow>
     NON_MATCH \<le> r \<and> memo_ok s'"
proof (induction m s h n and m s h n i sc arbitrary: r s' and r s'
       rule: recursive_match_match_loop.induct)
  case (1 m s h n)
  from "1.prems"(1) show ?case
  proof (cases rule: recursive_match_cases)
    case base
    with "1.prems" show ?thesis by (simp add: NON_MATCH_def)
  next
    case too_far_left
    with "1.prems" show ?thesis by simp
  next
    case too_far_right
    with "1.prems" show ?thesis by simp
  next
    case hit
    with "1.prems" show ?thesis by (simp add: memo_ok_nth)
  next
    case (search s2)
    have "NON_MATCH \<le> r \<and> memo_ok s2"
      using search "1.prems"(2)
        "1.IH" [of "n * needle_len m + h" UNSET "s\<lparr>lookups := lookups s @ [(n, h, UNSET)]\<rparr>" r s2]
      by simp
    with search show ?thesis by (simp add: memo_ok_update)
  qed
next
  case (2 m s h n i sc)
  from "2.prems"(1) show ?case
  proof (cases rule: match_loop_cases)
    case finished
    with "2.prems" show ?thesis by simp
  next
    case wall
    with "2.prems" show ?thesis by simp
  next
    case differ
    then show ?thesis
      using "2.prems" "2.IH"(4) [of "needle_p m ! nat n" r s'] by simp
  next
    case (stop ra)
    have "NON_MATCH \<le> ra \<and> memo_ok s'"
      using stop "2.prems" "2.IH"(1) [of "needle_p m ! nat n" ra s'] by simp
    with stop "2.prems" show ?thesis by simp
  next
    case (better ra sa)
    have a: "NON_MATCH \<le> ra \<and> memo_ok sa"
      using better "2.prems" "2.IH"(1) [of "needle_p m ! nat n" ra sa] by simp
    show ?thesis
      using better "2.prems" a
        "2.IH"(2) [of "needle_p m ! nat n" "(ra, sa)" ra sa "score_for_char m h i + ra" r s']
      by simp
  next
    case (worse ra sa)
    have a: "NON_MATCH \<le> ra \<and> memo_ok sa"
      using worse "2.prems" "2.IH"(1) [of "needle_p m ! nat n" ra sa] by simp
    show ?thesis
      using worse "2.prems" a
        "2.IH"(3) [of "needle_p m ! nat n" "(ra, sa)" ra sa "score_for_char m h i + ra" r s']
      by simp
  qed
qed


lemma loop_keeps_score:
  "recursive_match m s h n = Inr (r, s') \<Longrightarrow> True"
  "match_loop m s h n i sc = Inr (r, s') \<Longrightarrow> no_walls m \<Longrightarrow> sc \<le> r"
proof (induction m s h n and m s h n i sc arbitrary: r s' and r s'
       rule: recursive_match_match_loop.induct)
  case (1 m s h n)
  show ?case by simp
next
  case (2 m s h n i sc)
  from "2.prems"(1) show ?case
  proof (cases rule: match_loop_cases)
    case finished
    then show ?thesis by simp
  next
    case wall
    with "2.prems" show ?thesis by (simp add: no_walls_def)
  next
    case differ
    then show ?thesis
      using "2.prems" "2.IH"(4) [of "needle_p m ! nat n" r s'] by simp
  next
    case (stop ra)
    then show ?thesis by simp
  next
    case (better ra sa)
    have "score_for_char m h i + ra \<le> r"
      using better "2.prems"
        "2.IH"(2) [of "needle_p m ! nat n" "(ra, sa)" ra sa "score_for_char m h i + ra" r s']
      by simp
    with better show ?thesis by simp
  next
    case (worse ra sa)
    show ?thesis
      using worse "2.prems"
        "2.IH"(3) [of "needle_p m ! nat n" "(ra, sa)" ra sa "score_for_char m h i + ra" r s']
      by simp
  qed
qed

lemma factor_pos: "1 < distance \<Longrightarrow> 0 < factor prev cur distance"
  by (simp add: factor_def)

lemma score_for_char_pos: "0 < max_score_per_char m \<Longrightarrow> 0 < score_for_char m h i"
  by (simp add: score_for_char_def Let_def factor_pos)

lemma all_unset_lookups [simp]: "all_unset (s\<lparr>lookups := l\<rparr>) = all_unset s"
  by (simp add: all_unset_def)

lemma NON_MATCH_le_UNSET: "NON_MATCH \<le> UNSET"
  by (simp add: NON_MATCH_def UNSET_def)

lemma all_unset_memo_ok: "all_unset s \<Longrightarrow> memo_ok s"
  using NON_MATCH_le_UNSET by (auto simp: all_unset_def memo_ok_def)

lemma all_unset_nth: "all_unset s \<Longrightarrow> in_range (memo s) idx \<Longrightarrow> memo s ! nat idx = UNSET"
proof -
  assume a: "all_unset s" "in_range (memo s) idx"
  then have "nat idx < length (memo s)" by (simp add: in_range_def nat_less_iff)
  then have "memo s ! nat idx \<in> set (memo s)" by (rule nth_mem)
  with a show ?thesis by (simp add: all_unset_def)
qed

lemma exhaustive_simps [simp]:
  "dot_wall (exhaustive m) c i = dot_wall m c i"
  "fold_char (exhaustive m) d = fold_char m d"
  "score_for_char (exhaustive m) h i = score_for_char m h i"
  "no_walls (exhaustive m) = no_walls m"
  by (simp_all add: dot_wall_def fold_char_def score_for_char_def no_walls_def Let_def)


lemma exhaustive_not_lower_rec:
  "recursive_match m s h n = Inr (r1, s1) \<Longrightarrow>
   recursive_match (exhaustive m) s h n = Inr (r2, s2) \<Longrightarrow>
   \<not> compute_all_scorings m \<Longrightarrow> no_walls m \<Longrightarrow> 0 < max_score_per_char m \<Longrightarrow>
   all_unset s \<Longrightarrow> r1 \<le> r2 \<and> (r1 = NON_MATCH \<longrightarrow> r2 = NON_MATCH)"
  "match_loop m s h n i sc = Inr (r1, s1) \<Longrightarrow>
   match_loop (exhaustive m) s h n i sc = Inr (r2, s2) \<Longrightarrow> sc = NON_MATCH \<Longrightarrow>
   \<not> compute_all_scorings m \<Longrightarrow> no_walls m \<Longrightarrow> 0 < max_score_per_char m \<Longrightarrow>
   all_unset s \<Longrightarrow> r1 \<le> r2 \<and> (r1 = NON_MATCH \<longrightarrow> r2 = NON_MATCH)"
proof (induction m s h n and m s h n i sc arbitrary: r1 s1 r2 s2 and r1 s1 r2 s2
       rule: recursive_match_match_loop.induct)
  case (1 m s h n)
  note second = "1.prems"(2) [unfolded recursive_match.simps [of "exhaustive m" s h n] Let_def]
  from "1.prems"(1) show ?case
  proof (cases rule: recursive_match_cases)
    case base
    with second show ?thesis by simp
  next
    case too_far_left
    with second show ?thesis by simp
  next
    case too_far_right
    with second show ?thesis by simp
  next
    case hit
    with "1.prems"(6) show ?thesis by (simp add: all_unset_nth)
  next
    case (search sa)
    let ?s = "s\<lparr>lookups := lookups s @ [(n, h, UNSET)]\<rparr>"
    from second search obtain sb where
      loop2: "match_loop (exhaustive m) ?s h n h NON_MATCH = Inr (r2, sb)"
      by (auto split: sum.splits)
    show ?thesis
      using "1.IH" [of "n * needle_len m + h" UNSET ?s r1 sa r2 sb] search loop2 "1.prems"
      by simp
  qed
next
  case (2 m s h n i sc)
  note second = "2.prems"(2) [unfolded match_loop.simps [of "exhaustive m" s h n i sc] Let_def]
  have ok: "memo_ok s" using "2.prems"(7) by (rule all_unset_memo_ok)
  from "2.prems"(1) show ?case
  proof (cases rule: match_loop_cases)
    case finished
    with second "2.prems"(3) show ?thesis by simp
  next
    case wall
    with "2.prems"(5) show ?thesis by (simp add: no_walls_def)
  next
    case differ
    with second have "match_loop (exhaustive m) s h n (i + 1) sc = Inr (r2, s2)"
      by simp
    then show ?thesis
      using differ "2.prems" "2.IH"(4) [of "needle_p m ! nat n" r1 s1 r2 s2] by simp
  next
    case (stop ra)
    from lower_bound(1) [OF stop(7) ok] have ra: "NON_MATCH \<le> ra" by simp
    from second stop obtain rb sb where
      rec2: "recursive_match (exhaustive m) s (i + 1) (n + 1) = Inr (rb, sb)"
      by (auto split: sum.splits)
    from lower_bound(1) [OF rec2 ok] have rb: "NON_MATCH \<le> rb" by simp
    have pos: "0 < score_for_char m h i" using "2.prems"(6) by (rule score_for_char_pos)
    have le: "ra \<le> rb"
      using stop rec2 "2.prems" "2.IH"(1) [of "needle_p m ! nat n" ra s1 rb sb] by simp
    from second stop rec2 rb pos "2.prems"(3)
    have "match_loop (exhaustive m) sb h n (i + 1) (score_for_char m h i + rb) = Inr (r2, s2)"
      by simp
    from loop_keeps_score(2) [OF this] "2.prems"(5)
    have "score_for_char m h i + rb \<le> r2" by simp
    with le stop ra pos "2.prems"(3) show ?thesis by simp
  next
    case (better ra sa)
    with "2.prems"(4) show ?thesis by simp
  next
    case (worse ra sa)
    from lower_bound(1) [OF worse(7) ok] have ra: "NON_MATCH \<le> ra" by simp
    have pos: "0 < score_for_char m h i" using "2.prems"(6) by (rule score_for_char_pos)
    from worse(8) ra pos "2.prems"(3) show ?thesis by simp
  qed
qed

subsection \<open>The scoring call\<close>

lemma prescan_exhaustive [simp]:
  "prescan (m\<lparr>compute_all_scorings := b\<rparr>) cb i n msk rm = prescan m cb i n msk rm"
proof (induction m cb i n msk rm rule: prescan.induct)
  case (1 m cb i n msk rm)
  show ?case
    by (subst prescan.simps [of "m\<lparr>compute_all_scorings := b\<rparr>"], subst prescan.simps [of m])
       (simp add: Let_def 1)
qed

lemma dot_file_scan_exhaustive [simp]:
  "dot_file_scan (m\<lparr>compute_all_scorings := b\<rparr>) i = dot_file_scan m i"
proof (induction m i rule: dot_file_scan.induct)
  case (1 m i)
  show ?case
    by (subst dot_file_scan.simps [of "m\<lparr>compute_all_scorings := b\<rparr>"], subst dot_file_scan.simps [of m])
       (simp add: 1)
qed

lemma fresh_memo_exhaustive [simp]:
  "fresh_memo (m\<lparr>compute_all_scorings := b\<rparr>) = fresh_memo m"
  by (simp add: fresh_memo_def)

lemma all_unset_fresh_memo: "all_unset (fresh_memo m)"
  by (simp add: fresh_memo_def all_unset_def Let_def)

lemma matchinfo_of_exhaustive:
  "matchinfo_of h nd cs al nv ex = (matchinfo_of h nd cs al nv False)\<lparr>compute_all_scorings := ex\<rparr>"
  by (simp add: matchinfo_of_def)

lemma no_walls_matchinfo_of:
  assumes "(al \<and> \<not> nv) \<or> \<not> has_dot_segment h"
  shows "no_walls ((matchinfo_of h nd cs al nv ex)\<lparr>rightmost_match_p := rm\<rparr>)"
  unfolding no_walls_def
proof (intro allI impI)
  fix c i
  let ?m = "(matchinfo_of h nd cs al nv ex)\<lparr>rightmost_match_p := rm\<rparr>"
  assume "in_range (haystack_p ?m) i"
  then have i: "0 \<le> i" "nat i < length h"
    by (simp_all add: matchinfo_of_def in_range_def nat_less_iff)
  from assms show "\<not> dot_wall ?m c i"
  proof
    assume "al \<and> \<not> nv"
    then show ?thesis by (simp add: dot_wall_def matchinfo_of_def)
  next
    assume "\<not> has_dot_segment h"
    with i have "\<not> dot_at h (nat i)" by (auto simp: has_dot_segment_def)
    with i have "\<not> dot_file_at h i" by (simp add: dot_file_at_nat)
    then show ?thesis by (simp add: dot_wall_def matchinfo_of_def)
  qed
qed

lemma max_score_per_char_pos:
  "h \<noteq> [] \<Longrightarrow> nd \<noteq> [] \<Longrightarrow>
   0 < max_score_per_char ((matchinfo_of h nd cs al nv ex)\<lparr>rightmost_match_p := rm\<rparr>)"
  by (simp add: matchinfo_of_def add_pos_pos)


lemma calculate_match_other:
  assumes "nd = [] \<or> h = [] \<or> (hb \<noteq> 0 \<and> nb AND hb \<noteq> nb)"
  shows "calculate_match h nd cs al nv ex nb hb = calculate_match h nd cs al nv False nb hb"
proof -
  have sel: "needle_len (matchinfo_of h nd cs al nv b) = int (length nd)"
    "haystack_len (matchinfo_of h nd cs al nv b) = int (length h)"
    "always_show_dot_files (matchinfo_of h nd cs al nv b) = al" for b
    by (simp_all add: matchinfo_of_def)
  have scan: "dot_file_scan (matchinfo_of h nd cs al nv ex) 0 =
              dot_file_scan (matchinfo_of h nd cs al nv False) 0"
    by (subst matchinfo_of_exhaustive) simp
  from assms show ?thesis
    unfolding calculate_match_def Let_def sel scan
    by auto
qed

lemma finish_mono:
  "r1 \<le> r2 \<Longrightarrow> (r1 = NON_MATCH \<longrightarrow> r2 = NON_MATCH) \<Longrightarrow> NON_MATCH \<le> r1 \<Longrightarrow>
   finish r1 \<le> finish r2"
  by (auto simp: finish_def)


text \<open>
  Claim C9: for every fixed haystack, needle, signatures and other options, the score
  with \<^verbatim>\<open>compute_all_scorings\<close> enabled is at least the score with it disabled.

  With the needle \<open>a\<close> and the haystack \<open>a/.a\<close>, hidden files not always shown: the
  fast path stops at the first \<open>a\<close> and returns \<open>0.625\<close>; the exhaustive path scans on,
  reaches the \<open>.\<close> after the \<open>/\<close>, and line 66 replaces the score found so far by
  the sentinel, so the call returns 0.
\<close>

theorem exhaustive_scores_lower:
  "score_of (calculate_match ''a/.a'' ''a'' False False False False 1 0) = Some (5 / 8) \<and>
   score_of (calculate_match ''a/.a'' ''a'' False False False True 1 0) = Some 0"
  by (simp add: eval_defs eval_simps UNSET_def)

text \<open>
  Claim C9, amended: when the dot-file exit cannot be taken (hidden files are always
  shown and not suppressed, or no \<open>.\<close> of the haystack starts it or follows a \<open>/\<close>)
  and both calls return a score, the score with \<^verbatim>\<open>compute_all_scorings\<close> enabled
  is at least the score with it disabled.
\<close>

theorem exhaustive_not_lower_without_dot_wall:
  assumes nw: "(al \<and> \<not> nv) \<or> \<not> has_dot_segment h"
    and a: "score_of (calculate_match h nd cs al nv False nb hb) = Some a"
    and b: "score_of (calculate_match h nd cs al nv True nb hb) = Some b"
  shows "a \<le> b"
proof (cases "nd = [] \<or> h = [] \<or> (hb \<noteq> 0 \<and> nb AND hb \<noteq> nb)")
  case True
  from calculate_match_other [OF True, of cs al nv True] a b show ?thesis by simp
next
  case False
  then have n: "nd \<noteq> []" "h \<noteq> []" "\<not> (hb \<noteq> 0 \<and> nb AND hb \<noteq> nb)" by auto
  let ?m = "matchinfo_of h nd cs al nv False"
  let ?ps = "prescan ?m (hb = 0) (int (length h) - 1) (int (length nd) - 1) (Some 0)
               (replicate (length nd) 0)"
  have ps: "prescan (matchinfo_of h nd cs al nv True) (hb = 0) (int (length h) - 1)
              (int (length nd) - 1) (Some 0) (replicate (length nd) 0) = ?ps"
    by (subst matchinfo_of_exhaustive) simp
  note cmF = calculate_match_normal [OF n, of cs al nv False]
  note cmT = calculate_match_normal [OF n, of cs al nv True, unfolded ps]
  show ?thesis
  proof (cases ?ps)
    case (Inl e)
    with a cmF show ?thesis by (simp add: score_of_def)
  next
    case (Inr t)
    obtain nidx msk rm where t: "t = (nidx, msk, rm)" by (cases t)
    show ?thesis
    proof (cases "nidx = - 1")
      case False
      with a b cmF cmT Inr t show ?thesis by (simp add: score_of_def)
    next
      case True
      let ?m' = "?m\<lparr>rightmost_match_p := rm\<rparr>"
      have mT: "(matchinfo_of h nd cs al nv True)\<lparr>rightmost_match_p := rm\<rparr> = exhaustive ?m'"
        by (simp add: matchinfo_of_def)
      from a cmF Inr t True obtain r1 s1 where
        r1: "recursive_match ?m' (fresh_memo ?m') 0 0 = Inr (r1, s1)" "a = finish r1"
        by (auto simp: score_of_def split: sum.splits)
      from b cmT Inr t True obtain r2 s2 where
        r2: "recursive_match (exhaustive ?m') (fresh_memo ?m') 0 0 = Inr (r2, s2)" "b = finish r2"
        by (auto simp: score_of_def mT split: sum.splits)
      have "r1 \<le> r2 \<and> (r1 = NON_MATCH \<longrightarrow> r2 = NON_MATCH)"
        using r1(1) r2(1)
      proof (rule exhaustive_not_lower_rec(1))
        show "\<not> compute_all_scorings ?m'" by (simp add: matchinfo_of_def)
        show "no_walls ?m'" using nw by (rule no_walls_matchinfo_of)
        show "0 < max_score_per_char ?m'" using n(2) n(1) by (rule max_score_per_char_pos)
        show "all_unset (fresh_memo ?m')" by (rule all_unset_fresh_memo)
      qed
      moreover have "NON_MATCH \<le> r1"
        using lower_bound(1) [OF r1(1) all_unset_memo_ok [OF all_unset_fresh_memo]] by simp
      ultimately show ?thesis using r1(2) r2(2) by (simp add: finish_mono)
    qed
  qed
qed

theorem exhaustive_not_lower_without_dot_wall_witness:
  "score_of (calculate_match ''xxa/a'' ''a'' False True False False 1 0) = Some (9 / 40) \<and>
   score_of (calculate_match ''xxa/a'' ''a'' False True False True 1 0) = Some (27 / 50) \<and>
   (9 / 40 :: real) \<le> 27 / 50"
proof -
  have f: "score_of (calculate_match ''xxa/a'' ''a'' False True False False 1 0) = Some (9 / 40)"
    by (simp add: eval_defs eval_simps UNSET_def)
  have t: "score_of (calculate_match ''xxa/a'' ''a'' False True False True 1 0) = Some (27 / 50)"
    by (simp add: eval_defs eval_simps UNSET_def)
  from exhaustive_not_lower_without_dot_wall [OF _ f t] f t show ?thesis by simp
qed

section \<open>Case folding\<close>

text \<open>
  Claim C4: when \<open>case_sensitive\<close> is false, a needle character matches a haystack
  character exactly when the two are equal after ASCII case folding of both; the
  needle \<open>A\<close> matches the haystack \<open>a\<close> with a nonzero score.

  The source folds the haystack character only (lines 69-71 and 172-175) and compares
  the needle character as it is: the needle \<open>A\<close> against the haystack \<open>a\<close> fails in
  the backward scan and scores 0.
\<close>

theorem upper_needle_lower_haystack_no_match:
  "score_of (calculate_match ''a'' ''A'' False False False False 1 0) = Some 0"
  by (simp add: eval_defs eval_simps)

subsection \<open>The backward scan finds every subsequence\<close>

lemma subseq_singleton_right: "subseq xs [y] \<Longrightarrow> xs = [] \<or> xs = [y]"
proof -
  assume a: "subseq xs [y]"
  then have "length xs \<le> 1" using list_emb_length [of "(=)" xs "[y]"] by simp
  then consider "xs = []" | z where "xs = [z]"
    by (cases xs) (auto simp: le_Suc_eq)
  then show ?thesis
  proof cases
    case 1
    then show ?thesis by simp
  next
    case (2 z)
    with a have "z \<in> set [y]" by (simp only: subseq_singleton_left)
    with 2 show ?thesis by simp
  qed
qed

lemma subseq_snoc_neq:
  assumes "subseq (xs @ [x]) (ys @ [y])" "x \<noteq> y"
  shows "subseq (xs @ [x]) ys"
proof -
  from assms(1) obtain xs1 xs2 where
    s: "xs @ [x] = xs1 @ xs2" "subseq xs1 ys" "subseq xs2 [y]"
    unfolding subseq_append_iff by blast
  from s(3) have "xs2 = [] \<or> xs2 = [y]" by (rule subseq_singleton_right)
  then show ?thesis
  proof
    assume "xs2 = []"
    with s show ?thesis by simp
  next
    assume "xs2 = [y]"
    with s(1) assms(2) show ?thesis by simp
  qed
qed


lemma prescan_complete:
  "- 1 \<le> i \<Longrightarrow> i < int (length (haystack_p m)) \<Longrightarrow> - 1 \<le> n \<Longrightarrow>
   n < int (length (needle_p m)) \<Longrightarrow> length rm = length (needle_p m) \<Longrightarrow>
   subseq (take (nat (n + 1)) (needle_p m))
          (take (nat (i + 1)) (folded (case_sensitive m) (haystack_p m))) \<Longrightarrow>
   \<exists>msk' rm'. prescan m cb i n msk rm = Inr (- 1, msk', rm')"
proof (induction m cb i n msk rm rule: prescan.induct)
  case (1 m cb i n msk rm)
  let ?h = "haystack_p m" and ?nd = "needle_p m"
  let ?f = "folded (case_sensitive m) ?h"
  note sub = "1.prems"(6)
  show ?case
  proof (cases "0 \<le> i")
    case False
    then have eq: "prescan m cb i n msk rm = Inr (n, msk, rm)"
      by (simp add: prescan.simps [of m cb i n msk rm])
    from False "1.prems" have "nat (i + 1) = 0" by simp
    with sub have "subseq (take (nat (n + 1)) ?nd) []" by simp
    then have "take (nat (n + 1)) ?nd = []" by (rule list_emb_Nil2)
    then have "nat (n + 1) = 0 \<or> ?nd = []" by (simp only: take_eq_Nil)
    with "1.prems" have "n = - 1" by auto
    with eq show ?thesis by simp
  next
    case i0: True
    with "1.prems" have hr: "in_range ?h i" by (simp add: in_range_def)
    let ?lower = "lower_of (?h ! nat i)"
    let ?c = "if \<not> case_sensitive m then ?lower else ?h ! nat i"
    let ?msk = "if cb then or_mask msk (shift_left_1 (ord ?lower - ord CHR ''a'')) else msk"
    have c: "?c = ?f ! nat i" using i0 "1.prems" by (simp add: folded_nth nat_less_iff)
    have ti: "take (nat (i + 1)) ?f = take (nat i) ?f @ [?c]"
      using i0 "1.prems" c take_nat_Suc [of i ?f] by simp
    show ?thesis
    proof (cases "0 \<le> n")
      case False
      have eq: "prescan m cb i n msk rm = prescan m cb (i - 1) n ?msk rm"
        using i0 hr False by (simp add: prescan.simps [of m cb i n msk rm] Let_def)
      from False "1.prems" have "nat (n + 1) = 0" by simp
      then have "\<exists>msk' rm'. prescan m cb (i - 1) n ?msk rm = Inr (- 1, msk', rm')"
        using i0 hr False "1.prems"
        by (intro "1.IH"(3) [OF i0 _ refl refl refl False]) simp_all
      with eq show ?thesis by simp
    next
      case n0: True
      with "1.prems" have nr: "in_range ?nd n" "in_range rm n" by (simp_all add: in_range_def)
      have tn: "take (nat (n + 1)) ?nd = take (nat n) ?nd @ [?nd ! nat n]"
        using n0 "1.prems" take_nat_Suc [of n ?nd] by simp
      show ?thesis
      proof (cases "?c = ?nd ! nat n")
        case True
        have eq: "prescan m cb i n msk rm = prescan m cb (i - 1) (n - 1) ?msk (rm[nat n := i])"
          using i0 hr n0 nr True by (simp add: prescan.simps [of m cb i n msk rm] Let_def)
        from sub have "subseq (take (nat n) ?nd) (take (nat i) ?f)"
          unfolding tn ti using True by simp
        then have "\<exists>msk' rm'. prescan m cb (i - 1) (n - 1) ?msk (rm[nat n := i]) = Inr (- 1, msk', rm')"
          using i0 hr n0 nr True "1.prems"
          by (intro "1.IH"(1) [OF i0 _ refl refl refl n0 _ True]) simp_all
        with eq show ?thesis by simp
      next
        case False
        have eq: "prescan m cb i n msk rm = prescan m cb (i - 1) n ?msk rm"
          using i0 hr n0 nr False by (simp add: prescan.simps [of m cb i n msk rm] Let_def)
        from sub have "subseq (take (nat n) ?nd @ [?nd ! nat n]) (take (nat i) ?f @ [?c])"
          by (simp only: tn ti)
        moreover have "?nd ! nat n \<noteq> ?c" using False by (rule not_sym)
        ultimately have "subseq (take (nat n) ?nd @ [?nd ! nat n]) (take (nat i) ?f)"
          by (rule subseq_snoc_neq)
        then have sub': "subseq (take (nat (n + 1)) ?nd) (take (nat (i - 1 + 1)) ?f)"
          by (simp only: tn) simp
        have "\<exists>msk' rm'. prescan m cb (i - 1) n ?msk rm = Inr (- 1, msk', rm')"
        proof (rule "1.IH"(2) [OF i0 _ refl refl refl n0 _ False])
          show "\<not> \<not> in_range ?h i" using hr by simp
          show "\<not> \<not> in_range ?nd n" using nr by simp
          show "- 1 \<le> i - 1" using i0 by simp
          show "i - 1 < int (length ?h)" using "1.prems" by simp
          show "- 1 \<le> n" using n0 by simp
          show "n < int (length ?nd)" using "1.prems" by simp
          show "length rm = length ?nd" using "1.prems" by simp
          show "subseq (take (nat (n + 1)) ?nd) (take (nat (i - 1 + 1)) ?f)" by (rule sub')
        qed
        with eq show ?thesis by simp
      qed
    qed
  qed
qed


lemma table_from_lower: "table_from m rm n i \<Longrightarrow> i' \<le> i \<Longrightarrow> table_from m rm n i'"
  unfolding table_from_def by force

lemma table_from_step:
  assumes t: "table_from m rm n i"
    and n: "0 \<le> n" "n < int (length (needle_p m))"
    and i: "0 \<le> i" "i < int (length (haystack_p m))"
    and c: "needle_p m ! nat n = folded (case_sensitive m) (haystack_p m) ! nat i"
  shows "table_from m (rm[nat n := i]) (n - 1) (i - 1)"
proof -
  from t have len: "length rm = length (needle_p m)" by (simp add: table_from_def)
  have A: "i - 1 < rm[nat n := i] ! k \<and> rm[nat n := i] ! k < int (length (haystack_p m)) \<and>
        needle_p m ! k = folded (case_sensitive m) (haystack_p m) ! nat (rm[nat n := i] ! k)"
    if k: "n - 1 < int k \<and> k < length (needle_p m)" for k
  proof (cases "k = nat n")
    case True
    with k len i c show ?thesis by simp
  next
    case False
    with k n have "n < int k" by linarith
    with t k have "i < rm ! k \<and> rm ! k < int (length (haystack_p m)) \<and>
        needle_p m ! k = folded (case_sensitive m) (haystack_p m) ! nat (rm ! k)"
      unfolding table_from_def by blast
    with False show ?thesis by simp
  qed
  have B: "rm[nat n := i] ! k < rm[nat n := i] ! k'"
    if k: "n - 1 < int k \<and> k < k' \<and> k' < length (needle_p m)" for k k'
  proof -
    from k n have k'n: "n < int k'" "k' \<noteq> nat n" by linarith+
    with t k have ik': "i < rm ! k'" unfolding table_from_def by blast
    show ?thesis
    proof (cases "k = nat n")
      case True
      with k len k'n ik' show ?thesis by simp
    next
      case False
      with k n have "n < int k" by linarith
      with t k have "rm ! k < rm ! k'" unfolding table_from_def by blast
      with False k'n show ?thesis by simp
    qed
  qed
  from len A B show ?thesis unfolding table_from_def by simp
qed


lemma prescan_table:
  "prescan m cb i n msk rm = Inr (- 1, msk', rm') \<Longrightarrow> - 1 \<le> i \<Longrightarrow>
   i < int (length (haystack_p m)) \<Longrightarrow> - 1 \<le> n \<Longrightarrow> n < int (length (needle_p m)) \<Longrightarrow>
   table_from m rm n i \<Longrightarrow> table_from m rm' (- 1) (- 1)"
proof (induction m cb i n msk rm arbitrary: msk' rm' rule: prescan.induct)
  case (1 m cb i n msk rm)
  let ?h = "haystack_p m" and ?nd = "needle_p m"
  let ?f = "folded (case_sensitive m) ?h"
  note res = "1.prems"(1)
  note t = "1.prems"(6)
  from t have len: "length rm = length ?nd" by (simp add: table_from_def)
  show ?case
  proof (cases "0 \<le> i")
    case False
    then have "prescan m cb i n msk rm = Inr (n, msk, rm)"
      by (simp add: prescan.simps [of m cb i n msk rm])
    with res have "n = - 1" "rm' = rm" by simp_all
    moreover from False "1.prems" have "i = - 1" by simp
    ultimately show ?thesis using t by simp
  next
    case i0: True
    with "1.prems" have hr: "in_range ?h i" by (simp add: in_range_def)
    let ?lower = "lower_of (?h ! nat i)"
    let ?c = "if \<not> case_sensitive m then ?lower else ?h ! nat i"
    let ?msk = "if cb then or_mask msk (shift_left_1 (ord ?lower - ord CHR ''a'')) else msk"
    have c: "?c = ?f ! nat i" using i0 "1.prems" by (simp add: folded_nth nat_less_iff)
    have t1: "table_from m rm n (i - 1)" using t by (rule table_from_lower) simp
    show ?thesis
    proof (cases "0 \<le> n")
      case False
      have eq: "prescan m cb i n msk rm = prescan m cb (i - 1) n ?msk rm"
        using i0 hr False by (simp add: prescan.simps [of m cb i n msk rm] Let_def)
      show ?thesis
      proof (rule "1.IH"(3) [OF i0 _ refl refl refl False])
        show "\<not> \<not> in_range ?h i" using hr by simp
        show "prescan m cb (i - 1) n ?msk rm = Inr (- 1, msk', rm')" using res eq by simp
        show "- 1 \<le> i - 1" using i0 by simp
        show "i - 1 < int (length ?h)" using "1.prems" by simp
        show "- 1 \<le> n" using "1.prems" by simp
        show "n < int (length ?nd)" using "1.prems" by simp
        show "table_from m rm n (i - 1)" by (rule t1)
      qed
    next
      case n0: True
      with "1.prems" len have nr: "in_range ?nd n" "in_range rm n" by (simp_all add: in_range_def)
      show ?thesis
      proof (cases "?c = ?nd ! nat n")
        case True
        have eq: "prescan m cb i n msk rm = prescan m cb (i - 1) (n - 1) ?msk (rm[nat n := i])"
          using i0 hr n0 nr True by (simp add: prescan.simps [of m cb i n msk rm] Let_def)
        have cm: "?nd ! nat n = ?f ! nat i" using True c by simp
        show ?thesis
        proof (rule "1.IH"(1) [OF i0 _ refl refl refl n0 _ True])
          show "\<not> \<not> in_range ?h i" using hr by simp
          show "\<not> \<not> in_range ?nd n" using nr by simp
          show "\<not> \<not> in_range rm n" using nr by simp
          show "prescan m cb (i - 1) (n - 1) ?msk (rm[nat n := i]) = Inr (- 1, msk', rm')"
            using res eq by simp
          show "- 1 \<le> i - 1" using i0 by simp
          show "i - 1 < int (length ?h)" using "1.prems" by simp
          show "- 1 \<le> n - 1" using n0 by simp
          show "n - 1 < int (length ?nd)" using "1.prems" by simp
          show "table_from m (rm[nat n := i]) (n - 1) (i - 1)"
            using t n0 "1.prems"(5) i0 "1.prems"(3) cm by (rule table_from_step)
        qed
      next
        case False
        have eq: "prescan m cb i n msk rm = prescan m cb (i - 1) n ?msk rm"
          using i0 hr n0 nr False by (simp add: prescan.simps [of m cb i n msk rm] Let_def)
        show ?thesis
        proof (rule "1.IH"(2) [OF i0 _ refl refl refl n0 _ False])
          show "\<not> \<not> in_range ?h i" using hr by simp
          show "\<not> \<not> in_range ?nd n" using nr by simp
          show "prescan m cb (i - 1) n ?msk rm = Inr (- 1, msk', rm')" using res eq by simp
          show "- 1 \<le> i - 1" using i0 by simp
          show "i - 1 < int (length ?h)" using "1.prems" by simp
          show "- 1 \<le> n" using n0 by simp
          show "n < int (length ?nd)" using "1.prems" by simp
          show "table_from m rm n (i - 1)" by (rule t1)
        qed
      qed
    qed
  qed
qed


subsection \<open>The scorer on the table of a successful scan\<close>

text \<open>With the table of a successful scan and no dot-file exit, every call of the
  scorer for a remaining needle character finds that character again, at the latest
  at its rightmost match, and returns a positive score.\<close>

lemma memo_pos_lookups [simp]: "memo_pos (s\<lparr>lookups := l\<rparr>) = memo_pos s"
  by (simp add: memo_pos_def)

lemma memo_pos_update: "memo_pos s \<Longrightarrow> 0 < r \<Longrightarrow> memo_pos (s\<lparr>memo := (memo s)[k := r]\<rparr>)"
  unfolding memo_pos_def using set_update_subset_insert [of "memo s" k r] by auto

lemma memo_pos_nth: "memo_pos s \<Longrightarrow> in_range (memo s) idx \<Longrightarrow> 0 < memo s ! nat idx"
proof -
  assume a: "memo_pos s" "in_range (memo s) idx"
  then have "nat idx < length (memo s)" by (simp add: in_range_def nat_less_iff)
  then have "memo s ! nat idx \<in> set (memo s)" by (rule nth_mem)
  with a show ?thesis by (simp add: memo_pos_def)
qed

lemma fold_char_folded:
  "fold_char m d = (if \<not> case_sensitive m then lower_of d else d)"
  by (simp add: fold_char_def lower_of_def between_def ord_def)

lemma table_ok_entry:
  assumes "table_ok m" "0 \<le> n" "n < needle_len m"
  shows "0 \<le> rightmost_match_p m ! nat n"
    and "in_range (haystack_p m) (rightmost_match_p m ! nat n)"
    and "needle_p m ! nat n = fold_char m (haystack_p m ! nat (rightmost_match_p m ! nat n))"
proof -
  from assms have k: "- 1 < int (nat n) \<and> nat n < length (needle_p m)"
    by (simp add: table_ok_def nat_less_iff)
  with assms(1) have e: "- 1 < rightmost_match_p m ! nat n"
    "rightmost_match_p m ! nat n < int (length (haystack_p m))"
    "needle_p m ! nat n =
       folded (case_sensitive m) (haystack_p m) ! nat (rightmost_match_p m ! nat n)"
    unfolding table_ok_def table_from_def by blast+
  from e(1) show "0 \<le> rightmost_match_p m ! nat n" by simp
  with e(2) show "in_range (haystack_p m) (rightmost_match_p m ! nat n)"
    by (simp add: in_range_def)
  from e show "needle_p m ! nat n = fold_char m (haystack_p m ! nat (rightmost_match_p m ! nat n))"
    by (simp add: folded_nth nat_less_iff fold_char_folded)
qed

lemma table_ok_next:
  assumes "table_ok m" "0 \<le> n" "n + 1 < needle_len m"
  shows "rightmost_match_p m ! nat n < rightmost_match_p m ! nat (n + 1)"
proof -
  from assms have "- 1 < int (nat n) \<and> nat n < nat (n + 1) \<and> nat (n + 1) < length (needle_p m)"
    by (simp add: table_ok_def nat_less_iff)
  with assms(1) show ?thesis unfolding table_ok_def table_from_def by blast
qed

lemma table_ok_gap:
  assumes "table_ok m" "0 \<le> n"
  shows "n + int d < needle_len m \<Longrightarrow>
         rightmost_match_p m ! nat n + int d \<le> rightmost_match_p m ! nat (n + int d)"
proof (induction d)
  case 0
  show ?case by simp
next
  case (Suc d)
  then have "rightmost_match_p m ! nat n + int d \<le> rightmost_match_p m ! nat (n + int d)" by simp
  moreover have "rightmost_match_p m ! nat (n + int d) < rightmost_match_p m ! nat (n + int d + 1)"
    using assms Suc.prems by (intro table_ok_next) simp_all
  moreover have "n + int d + 1 = n + int (Suc d)" by simp
  ultimately have "rightmost_match_p m ! nat n + int d < rightmost_match_p m ! nat (n + int (Suc d))"
    by (simp only: )
  then show ?case by simp
qed

lemma table_ok_last:
  assumes "table_ok m" "0 \<le> n" "n < needle_len m"
  shows "rightmost_match_p m ! nat n + (needle_len m - 1 - n) \<le>
         rightmost_match_p m ! nat (needle_len m - 1)"
proof -
  from assms have "n + int (nat (needle_len m - 1 - n)) < needle_len m" by simp
  from table_ok_gap [OF assms(1,2) this] assms show ?thesis by simp
qed


lemma scorer_positive:
  "recursive_match m s h n = Inr (r, s') \<Longrightarrow> table_ok m \<Longrightarrow> no_walls m \<Longrightarrow>
   0 < max_score_per_char m \<Longrightarrow> memo_pos s \<Longrightarrow> 0 \<le> n \<Longrightarrow> n \<le> needle_len m \<Longrightarrow>
   (n < needle_len m \<longrightarrow> n \<le> h \<and> h \<le> rightmost_match_p m ! nat n) \<Longrightarrow>
   (if n = needle_len m then r = 0 else 0 < r) \<and> memo_pos s'"
  "match_loop m s h n i sc = Inr (r, s') \<Longrightarrow> table_ok m \<Longrightarrow> no_walls m \<Longrightarrow>
   0 < max_score_per_char m \<Longrightarrow> memo_pos s \<Longrightarrow> 0 \<le> n \<Longrightarrow> n < needle_len m \<Longrightarrow>
   n \<le> i \<Longrightarrow> (sc = NON_MATCH \<and> i \<le> rightmost_match_p m ! nat n) \<or> 0 < sc \<Longrightarrow>
   0 < r \<and> memo_pos s'"
proof (induction m s h n and m s h n i sc arbitrary: r s' and r s'
       rule: recursive_match_match_loop.induct)
  case (1 m s h n)
  note tab = "1.prems"(2) and mp = "1.prems"(5) and n0 = "1.prems"(6) and pre = "1.prems"(8)
  from "1.prems"(1) show ?case
  proof (cases rule: recursive_match_cases)
    case base
    with mp show ?thesis by simp
  next
    case too_far_left
    with "1.prems"(7) pre show ?thesis by simp
  next
    case too_far_right
    with "1.prems"(7) have nl: "n < needle_len m" by simp
    from table_ok_last [OF tab n0 nl] pre nl too_far_right(4) show ?thesis by simp
  next
    case hit
    with mp show ?thesis by (simp add: memo_pos_nth)
  next
    case (search s2)
    with "1.prems"(7) have nl: "n < needle_len m" by simp
    have "0 < r \<and> memo_pos s2"
    proof (rule "1.IH" [of "n * needle_len m + h" UNSET
                          "s\<lparr>lookups := lookups s @ [(n, h, UNSET)]\<rparr>" r s2])
      show "n \<noteq> needle_len m" "n \<noteq> needle_len m" by (rule search(1))+
      show "\<not> h < n" by (rule search(2))
      show "\<not> \<not> in_range (rightmost_match_p m) (needle_len m - 1)" using search(3) by simp
      show "\<not> rightmost_match_p m ! nat (needle_len m - 1) + 1 < h + (needle_len m - n)"
        by (rule search(4))
      show "n * needle_len m + h = n * needle_len m + h" by simp
      show "\<not> \<not> in_range (memo s) (n * needle_len m + h)" using search(5) by simp
      show "UNSET = memo s ! nat (n * needle_len m + h)" using search(6) by simp
      show "s\<lparr>lookups := lookups s @ [(n, h, UNSET)]\<rparr> =
            s\<lparr>lookups := lookups s @ [(n, h, UNSET)]\<rparr>" by simp
      show "\<not> UNSET \<noteq> UNSET" by simp
      show "match_loop m (s\<lparr>lookups := lookups s @ [(n, h, UNSET)]\<rparr>) h n h NON_MATCH = Inr (r, s2)"
        by (rule search(7))
      show "table_ok m" "no_walls m" "0 < max_score_per_char m" by (rule "1.prems")+
      show "memo_pos (s\<lparr>lookups := lookups s @ [(n, h, UNSET)]\<rparr>)" using mp by simp
      show "0 \<le> n" by (rule n0)
      show "n < needle_len m" by (rule nl)
      show "n \<le> h" using pre nl by simp
      show "NON_MATCH = NON_MATCH \<and> h \<le> rightmost_match_p m ! nat n \<or> 0 < NON_MATCH"
        using pre nl by simp
    qed
    with search show ?thesis by (simp add: memo_pos_update)
  qed
next
  case (2 m s h n i sc)
  note tab = "2.prems"(2) and nw = "2.prems"(3) and ms = "2.prems"(4) and mp = "2.prems"(5)
    and n0 = "2.prems"(6) and nl = "2.prems"(7) and ni = "2.prems"(8) and inv = "2.prems"(9)
  have pos: "0 < score_for_char m h i" using ms by (rule score_for_char_pos)
  have nm: "NON_MATCH < 0" by (simp add: NON_MATCH_def)
  have next_pre: "n + 1 \<le> needle_len m"
    "n + 1 < needle_len m \<longrightarrow> n + 1 \<le> i + 1 \<and> i + 1 \<le> rightmost_match_p m ! nat (n + 1)"
    if "i \<le> rightmost_match_p m ! nat n"
  proof -
    show "n + 1 \<le> needle_len m" using nl by simp
    show "n + 1 < needle_len m \<longrightarrow> n + 1 \<le> i + 1 \<and> i + 1 \<le> rightmost_match_p m ! nat (n + 1)"
      using table_ok_next [OF tab n0] that ni by auto
  qed
  from "2.prems"(1) show ?case
  proof (cases rule: match_loop_cases)
    case finished
    with inv mp show ?thesis by auto
  next
    case wall
    with nw show ?thesis by (simp add: no_walls_def)
  next
    case differ
    from table_ok_entry(3) [OF tab n0 nl] differ(6)
    have "i \<noteq> rightmost_match_p m ! nat n" by auto
    with inv differ(3)
    have inv': "(sc = NON_MATCH \<and> i + 1 \<le> rightmost_match_p m ! nat n) \<or> 0 < sc" by auto
    show ?thesis
    proof (rule "2.IH"(4) [of "needle_p m ! nat n" r s'])
      show "\<not> (\<not> in_range (rightmost_match_p m) n \<or> \<not> in_range (needle_p m) n)"
        using differ by simp
      show "i \<le> rightmost_match_p m ! nat n" by (rule differ(3))
      show "\<not> \<not> in_range (haystack_p m) i" using differ by simp
      show "needle_p m ! nat n = needle_p m ! nat n" by simp
      show "\<not> dot_wall m (needle_p m ! nat n) i" by (rule differ(5))
      show "needle_p m ! nat n \<noteq> fold_char m (haystack_p m ! nat i)" by (rule differ(6))
      show "match_loop m s h n (i + 1) sc = Inr (r, s')" by (rule differ(7))
      show "table_ok m" "no_walls m" "0 < max_score_per_char m" "memo_pos s" "0 \<le> n"
        "n < needle_len m" by (rule "2.prems")+
      show "n \<le> i + 1" using ni by simp
      show "sc = NON_MATCH \<and> i + 1 \<le> rightmost_match_p m ! nat n \<or> 0 < sc" by (rule inv')
    qed
  next
    case (stop ra)
    have "(if n + 1 = needle_len m then ra = 0 else 0 < ra) \<and> memo_pos s'"
    proof (rule "2.IH"(1) [of "needle_p m ! nat n" ra s'])
      show "\<not> (\<not> in_range (rightmost_match_p m) n \<or> \<not> in_range (needle_p m) n)"
        using stop by simp
      show "i \<le> rightmost_match_p m ! nat n" by (rule stop(3))
      show "\<not> \<not> in_range (haystack_p m) i" using stop by simp
      show "needle_p m ! nat n = needle_p m ! nat n" by simp
      show "\<not> dot_wall m (needle_p m ! nat n) i" by (rule stop(5))
      show "needle_p m ! nat n = fold_char m (haystack_p m ! nat i)" by (rule stop(6))
      show "recursive_match m s (i + 1) (n + 1) = Inr (ra, s')" by (rule stop(7))
      show "table_ok m" "no_walls m" "0 < max_score_per_char m" "memo_pos s"
        by (rule "2.prems")+
      show "0 \<le> n + 1" using n0 by simp
      show "n + 1 \<le> needle_len m" using next_pre(1) [OF stop(3)] .
      show "n + 1 < needle_len m \<longrightarrow>
            n + 1 \<le> i + 1 \<and> i + 1 \<le> rightmost_match_p m ! nat (n + 1)"
        using next_pre(2) [OF stop(3)] .
    qed
    then have "0 \<le> ra" "memo_pos s'" by (auto split: if_splits)
    with stop pos show ?thesis by simp
  next
    case (better ra sa)
    have "(if n + 1 = needle_len m then ra = 0 else 0 < ra) \<and> memo_pos sa"
    proof (rule "2.IH"(1) [of "needle_p m ! nat n" ra sa])
      show "\<not> (\<not> in_range (rightmost_match_p m) n \<or> \<not> in_range (needle_p m) n)"
        using better by simp
      show "i \<le> rightmost_match_p m ! nat n" by (rule better(3))
      show "\<not> \<not> in_range (haystack_p m) i" using better by simp
      show "needle_p m ! nat n = needle_p m ! nat n" by simp
      show "\<not> dot_wall m (needle_p m ! nat n) i" by (rule better(5))
      show "needle_p m ! nat n = fold_char m (haystack_p m ! nat i)" by (rule better(6))
      show "recursive_match m s (i + 1) (n + 1) = Inr (ra, sa)" by (rule better(7))
      show "table_ok m" "no_walls m" "0 < max_score_per_char m" "memo_pos s"
        by (rule "2.prems")+
      show "0 \<le> n + 1" using n0 by simp
      show "n + 1 \<le> needle_len m" using next_pre(1) [OF better(3)] .
      show "n + 1 < needle_len m \<longrightarrow>
            n + 1 \<le> i + 1 \<and> i + 1 \<le> rightmost_match_p m ! nat (n + 1)"
        using next_pre(2) [OF better(3)] .
    qed
    then have ra: "0 \<le> ra" "memo_pos sa" by (auto split: if_splits)
    show ?thesis
    proof (rule "2.IH"(2) [of "needle_p m ! nat n" "(ra, sa)" ra sa "score_for_char m h i + ra" r s'])
      show "\<not> (\<not> in_range (rightmost_match_p m) n \<or> \<not> in_range (needle_p m) n)"
        using better by simp
      show "i \<le> rightmost_match_p m ! nat n" by (rule better(3))
      show "\<not> \<not> in_range (haystack_p m) i" using better by simp
      show "needle_p m ! nat n = needle_p m ! nat n" by simp
      show "\<not> dot_wall m (needle_p m ! nat n) i" by (rule better(5))
      show "needle_p m ! nat n = fold_char m (haystack_p m ! nat i)" by (rule better(6))
      show "recursive_match m s (i + 1) (n + 1) = Inr (ra, sa)" by (rule better(7))
      show "(ra, sa) = (ra, sa)" by simp
      show "score_for_char m h i + ra = score_for_char m h i + ra" by simp
      show "sc < score_for_char m h i + ra" by (rule better(8))
      show "\<not> \<not> compute_all_scorings m" using better(9) by simp
      show "match_loop m sa h n (i + 1) (score_for_char m h i + ra) = Inr (r, s')"
        by (rule better(10))
      show "table_ok m" "no_walls m" "0 < max_score_per_char m" by (rule "2.prems")+
      show "memo_pos sa" by (rule ra(2))
      show "0 \<le> n" "n < needle_len m" by (rule "2.prems")+
      show "n \<le> i + 1" using ni by simp
      show "score_for_char m h i + ra = NON_MATCH \<and> i + 1 \<le> rightmost_match_p m ! nat n \<or>
            0 < score_for_char m h i + ra"
        using pos ra(1) by simp
    qed
  next
    case (worse ra sa)
    have "(if n + 1 = needle_len m then ra = 0 else 0 < ra) \<and> memo_pos sa"
    proof (rule "2.IH"(1) [of "needle_p m ! nat n" ra sa])
      show "\<not> (\<not> in_range (rightmost_match_p m) n \<or> \<not> in_range (needle_p m) n)"
        using worse by simp
      show "i \<le> rightmost_match_p m ! nat n" by (rule worse(3))
      show "\<not> \<not> in_range (haystack_p m) i" using worse by simp
      show "needle_p m ! nat n = needle_p m ! nat n" by simp
      show "\<not> dot_wall m (needle_p m ! nat n) i" by (rule worse(5))
      show "needle_p m ! nat n = fold_char m (haystack_p m ! nat i)" by (rule worse(6))
      show "recursive_match m s (i + 1) (n + 1) = Inr (ra, sa)" by (rule worse(7))
      show "table_ok m" "no_walls m" "0 < max_score_per_char m" "memo_pos s"
        by (rule "2.prems")+
      show "0 \<le> n + 1" using n0 by simp
      show "n + 1 \<le> needle_len m" using next_pre(1) [OF worse(3)] .
      show "n + 1 < needle_len m \<longrightarrow>
            n + 1 \<le> i + 1 \<and> i + 1 \<le> rightmost_match_p m ! nat (n + 1)"
        using next_pre(2) [OF worse(3)] .
    qed
    then have ra: "0 \<le> ra" "memo_pos sa" by (auto split: if_splits)
    with worse(8) pos have sc: "0 < sc" by simp
    show ?thesis
    proof (rule "2.IH"(3) [of "needle_p m ! nat n" "(ra, sa)" ra sa "score_for_char m h i + ra" r s'])
      show "\<not> (\<not> in_range (rightmost_match_p m) n \<or> \<not> in_range (needle_p m) n)"
        using worse by simp
      show "i \<le> rightmost_match_p m ! nat n" by (rule worse(3))
      show "\<not> \<not> in_range (haystack_p m) i" using worse by simp
      show "needle_p m ! nat n = needle_p m ! nat n" by simp
      show "\<not> dot_wall m (needle_p m ! nat n) i" by (rule worse(5))
      show "needle_p m ! nat n = fold_char m (haystack_p m ! nat i)" by (rule worse(6))
      show "recursive_match m s (i + 1) (n + 1) = Inr (ra, sa)" by (rule worse(7))
      show "(ra, sa) = (ra, sa)" by simp
      show "score_for_char m h i + ra = score_for_char m h i + ra" by simp
      show "\<not> sc < score_for_char m h i + ra" by (rule worse(8))
      show "match_loop m sa h n (i + 1) sc = Inr (r, s')" by (rule worse(9))
      show "table_ok m" "no_walls m" "0 < max_score_per_char m" by (rule "2.prems")+
      show "memo_pos sa" by (rule ra(2))
      show "0 \<le> n" "n < needle_len m" by (rule "2.prems")+
      show "n \<le> i + 1" using ni by simp
      show "sc = NON_MATCH \<and> i + 1 \<le> rightmost_match_p m ! nat n \<or> 0 < sc" using sc by simp
    qed
  qed
qed


lemma table_from_rightmost [simp]:
  "table_from (m\<lparr>rightmost_match_p := x\<rparr>) rm n i = table_from m rm n i"
  by (simp add: table_from_def)

lemma memo_pos_fresh_memo: "memo_pos (fresh_memo m)"
  by (simp add: fresh_memo_def memo_pos_def Let_def UNSET_def)

subsection \<open>Matching is on the lower-cased haystack and the needle as given\<close>

text \<open>
  Claim C4, amended: when \<open>case_sensitive\<close> is false, a needle character matches a
  haystack character exactly when the needle character, as it is given, equals the
  haystack character after ASCII lower-casing of the haystack character alone. So for
  every needle and every non-empty haystack, when the dot-file exit cannot be taken
  (hidden files always shown and not suppressed, or no \<open>.\<close> starting the haystack or
  following a \<open>/\<close>), the haystack signature is unset or covers the needle signature,
  and the call returns a score: the score is positive when the needle as given is a
  subsequence of the lower-cased haystack (of the haystack itself when
  \<open>case_sensitive\<close> is true), and 0 otherwise.
\<close>

theorem match_iff_subsequence_of_folded_haystack:
  assumes h: "h \<noteq> []"
    and nw: "(al \<and> \<not> nv) \<or> \<not> has_dot_segment h"
    and pf: "hb = 0 \<or> nb AND hb = nb"
    and s: "score_of (calculate_match h nd cs al nv ex nb hb) = Some s"
  shows "(subseq nd (folded cs h) \<longrightarrow> 0 < s) \<and> (\<not> subseq nd (folded cs h) \<longrightarrow> s = 0)"
proof (cases "subseq nd (folded cs h)")
  case False
  from non_subsequence_scores_zero [OF h False, of al nv ex nb hb] s False
  show ?thesis by simp
next
  case sub: True
  let ?m = "matchinfo_of h nd cs al nv ex"
  have sel: "needle_len ?m = int (length nd)" "haystack_len ?m = int (length h)"
    "haystack_p ?m = h" "needle_p ?m = nd" "case_sensitive ?m = cs"
    "always_show_dot_files ?m = al"
    by (simp_all add: matchinfo_of_def)
  have "0 < s"
  proof (cases "nd = []")
    case True
    have "dot_file_scan ?m 0 =
            Inr (\<exists>j \<in> {nat 0..<length (haystack_p ?m)}. dot_at (haystack_p ?m) j)"
      by (rule dot_file_scan_eq) (simp_all add: sel)
    then have scan: "dot_file_scan ?m 0 = Inr (has_dot_segment h)"
      by (simp add: sel has_dot_segment_def)
    show ?thesis
    proof (cases al)
      case True
      with s \<open>nd = []\<close> sel show ?thesis
        unfolding calculate_match_def Let_def
        by (simp add: finish_def NON_MATCH_def score_of_def)
    next
      case False
      with nw have "\<not> has_dot_segment h" by simp
      with s \<open>nd = []\<close> sel scan False show ?thesis
        unfolding calculate_match_def Let_def
        by (simp add: finish_def NON_MATCH_def score_of_def)
    qed
  next
    case nd: False
    from pf have npf: "\<not> (hb \<noteq> 0 \<and> nb AND hb \<noteq> nb)" by auto
    note cm = calculate_match_normal [OF nd h npf, of cs al nv ex]
    have "\<exists>msk' rm'. prescan ?m (hb = 0) (int (length h) - 1) (int (length nd) - 1) (Some 0)
            (replicate (length nd) 0) = Inr (- 1, msk', rm')"
    proof (rule prescan_complete)
      show "subseq (take (nat (int (length nd) - 1 + 1)) (needle_p ?m))
             (take (nat (int (length h) - 1 + 1)) (folded (case_sensitive ?m) (haystack_p ?m)))"
        using sub by (simp add: sel)
    qed (simp_all add: sel)
    then obtain msk' rm' where
      ps: "prescan ?m (hb = 0) (int (length h) - 1) (int (length nd) - 1) (Some 0)
             (replicate (length nd) 0) = Inr (- 1, msk', rm')" by auto
    have tab: "table_from ?m rm' (- 1) (- 1)"
      using ps
    proof (rule prescan_table)
      show "table_from ?m (replicate (length nd) 0) (int (length nd) - 1) (int (length h) - 1)"
        by (auto simp: table_from_def sel)
    qed (simp_all add: sel)
    let ?m' = "?m\<lparr>rightmost_match_p := rm'\<rparr>"
    have tok: "table_ok ?m'" using tab by (simp add: table_ok_def sel)
    from s cm ps obtain r st where
      r: "recursive_match ?m' (fresh_memo ?m') 0 0 = Inr (r, st)" "s = finish r"
      by (auto simp: score_of_def split: sum.splits)
    have L: "0 < needle_len ?m'" using nd by (simp add: sel)
    have "(if 0 = needle_len ?m' then r = 0 else 0 < r) \<and> memo_pos st"
      using r(1) tok
    proof (rule scorer_positive(1))
      show "no_walls ?m'" using nw by (rule no_walls_matchinfo_of)
      show "0 < max_score_per_char ?m'" using h nd by (rule max_score_per_char_pos)
      show "memo_pos (fresh_memo ?m')" by (rule memo_pos_fresh_memo)
      show "(0::int) \<le> 0" by simp
      show "0 \<le> needle_len ?m'" using L by simp
      show "0 < needle_len ?m' \<longrightarrow> (0::int) \<le> 0 \<and> 0 \<le> rightmost_match_p ?m' ! nat 0"
        using table_ok_entry(1) [OF tok _ L] by simp
    qed
    with L have "0 < r" by simp
    with r(2) show ?thesis by (simp add: finish_def NON_MATCH_def)
  qed
  with sub show ?thesis by simp
qed

theorem match_iff_subsequence_of_folded_haystack_witness:
  "subseq ''ab'' (folded False ''xAxB'') \<and>
   score_of (calculate_match ''xAxB'' ''ab'' False True False False 3 0) = Some (3 / 4) \<and>
   \<not> subseq ''aB'' (folded False ''xAxB'') \<and>
   score_of (calculate_match ''xAxB'' ''aB'' False True False False 3 0) = Some 0"
proof -
  have f: "folded False ''xAxB'' = ''xaxb''"
    by (simp add: folded_def lower_of_def between_def ord_def add32_def char_of_eq_iff)
  have s1: "subseq ''ab'' (folded False ''xAxB'')" unfolding f by simp
  have s2: "\<not> subseq ''aB'' (folded False ''xAxB'')" unfolding f by (simp add: subseq_Cons2_iff)
  have e1: "score_of (calculate_match ''xAxB'' ''ab'' False True False False 3 0) = Some (3 / 4)"
    by (simp add: eval_defs eval_simps UNSET_def)
  have e2: "score_of (calculate_match ''xAxB'' ''aB'' False True False False 3 0) = Some 0"
    by (simp add: eval_defs eval_simps UNSET_def)
  from match_iff_subsequence_of_folded_haystack [OF _ _ _ e1]
    match_iff_subsequence_of_folded_haystack [OF _ _ _ e2] s1 s2 e1 e2
  show ?thesis by simp
qed

text \<open>For a needle of one character \<open>c\<close> and a haystack of one character \<open>d\<close> the
  score is 1 when \<open>c\<close> is the lower-cased \<open>d\<close> and 0 otherwise.\<close>

lemma one_char_match_folds_haystack_only:
  "score_of (calculate_match [d] [c] False True False ex nb 0) =
     Some (if c = lower_of d then 1 else 0)"
  by (simp add: eval_defs eval_simps UNSET_def)

section \<open>Dot files\<close>

text \<open>
  Claim C10: with \<open>never_show_dot_files\<close> true, the needle \<open>.\<close> against the haystack
  \<open>.git/config\<close> scores 0, for both values of \<open>always_show_dot_files\<close>.
  It holds for every value of the other options and of the two signatures.
\<close>

theorem dot_needle_never_show_scores_zero:
  "score_of (calculate_match ''.git/config'' ''.'' cs al True ex nb hb) = Some 0"
  by (simp add: eval_defs eval_simps UNSET_def)

end
